theory Spec2Isabelle
  imports Main "HOL-Library.AList"
begin

section \<open>JavaScript values\<close>

text \<open>
  The cache of \<^verbatim>\<open>background.js\<close> stores parsed JSON payloads under keys that come from
  extension messages and from \<^verbatim>\<open>chrome.storage.local\<close>. Both are JSON-like JavaScript
  values, and the code tests them for truthiness only. Numbers are the integral ones
  (millisecond timestamps, status codes); doubles compute exactly on them.
  A \<^verbatim>\<open>Map\<close> compares primitive keys by value; the model compares every key by value.
\<close>

datatype jsval =
    JUndefined
  | JNull
  | JBool bool
  | JNum int
  | JStr string
  | JArr "jsval list"
  | JObj "(string \<times> jsval) list"

text \<open>ToBoolean: \<^verbatim>\<open>undefined\<close>, \<^verbatim>\<open>null\<close>, \<^verbatim>\<open>false\<close>, \<^verbatim>\<open>0\<close> and \<^verbatim>\<open>""\<close> are falsy.\<close>

fun truthy :: "jsval \<Rightarrow> bool" where
  "truthy JUndefined = False"
| "truthy JNull = False"
| "truthy (JBool b) = b"
| "truthy (JNum n) = (n \<noteq> 0)"
| "truthy (JStr s) = (s \<noteq> [])"
| "truthy (JArr xs) = True"
| "truthy (JObj kvs) = True"

section \<open>The cache state of background.js\<close>

text \<open>
  A map value is \<^verbatim>\<open>{ data, timestamp }\<close>. The timestamp is a number or missing
  (\<^verbatim>\<open>undefined\<close>), as in the storage layout \<^verbatim>\<open>{ key, data, timestamp }\<close>; a stored entry
  adds the key. A stored timestamp of another type would be coerced by the subtraction:
  to a number, or to \<^verbatim>\<open>NaN\<close>, which no comparison admits into the map.
\<close>

record entry =
  data :: jsval
  timestamp :: "int option"

record stored_entry = entry +
  key :: jsval

text \<open>
  The module-level variables \<^verbatim>\<open>cache\<close>, \<^verbatim>\<open>cacheLoadPromise\<close> and \<^verbatim>\<open>persistTimeoutId\<close>,
  and what the host keeps for them: the pending \<^verbatim>\<open>setTimeout(persistCache, 2000)\<close> timers
  (handle and due time), the next timer handle, the promises made so far, the calls of
  \<^verbatim>\<open>chrome.storage.local.get\<close> (issued, and still waiting for their callback), the
  snapshots handed to \<^verbatim>\<open>chrome.storage.local.set\<close>, whether the hydration promise is
  resolved, and the URLs handed to \<^verbatim>\<open>fetch\<close>. A \<^verbatim>\<open>Map\<close> keeps insertion order, so the
  cache is an association list with distinct keys.
\<close>

record state =
  cache :: "(jsval \<times> entry) list"
  cacheLoadPromise :: "nat option"
  persistTimeoutId :: "nat option"
  timers :: "(nat \<times> int) list"
  nextHandle :: nat
  promisesCreated :: nat
  storageGets :: nat
  getsPending :: nat
  storageSets :: "stored_entry list list"
  promiseResolved :: bool
  fetches :: "string list"

definition CACHE_TTL_MS :: int where
  "CACHE_TTL_MS = 1000 * 60 * 60"

text \<open>The state when the service worker starts; \<^verbatim>\<open>setTimeout\<close> handles are positive.\<close>

definition initial :: state where
  "initial = \<lparr> cache = [], cacheLoadPromise = None, persistTimeoutId = None,
     timers = [], nextHandle = 1, promisesCreated = 0, storageGets = 0, getsPending = 0, storageSets = [],
     promiseResolved = False, fetches = [] \<rparr>"

text \<open>\<^verbatim>\<open>value.timestamp || 0\<close>\<close>

definition timestamp_or_0 :: "int option \<Rightarrow> int" where
  "timestamp_or_0 t = (case t of None \<Rightarrow> 0 | Some n \<Rightarrow> n)"

text \<open>\<^verbatim>\<open>Map.prototype.get\<close>, \<^verbatim>\<open>set\<close> (in place, or appended) and \<^verbatim>\<open>delete\<close>.\<close>

definition cache_get :: "(jsval \<times> entry) list \<Rightarrow> jsval \<Rightarrow> entry option" where
  "cache_get m k = map_of m k"

definition cache_set :: "jsval \<Rightarrow> entry \<Rightarrow> (jsval \<times> entry) list \<Rightarrow> (jsval \<times> entry) list" where
  "cache_set k v m = AList.update k v m"

definition cache_delete :: "jsval \<Rightarrow> (jsval \<times> entry) list \<Rightarrow> (jsval \<times> entry) list" where
  "cache_delete k m = AList.delete k m"

text \<open>
  \<^verbatim>\<open>schedulePersist\<close>: nothing when \<^verbatim>\<open>persistTimeoutId\<close> is truthy, otherwise
  \<^verbatim>\<open>setTimeout(persistCache, 2000)\<close>. The argument is the host's clock when it is called.
\<close>

definition handle_truthy :: "nat option \<Rightarrow> bool" where
  "handle_truthy h = (case h of None \<Rightarrow> False | Some n \<Rightarrow> n \<noteq> 0)"

definition schedulePersist :: "int \<Rightarrow> state \<Rightarrow> state" where
  "schedulePersist now s =
     (if handle_truthy (persistTimeoutId s) then s
      else s\<lparr> persistTimeoutId := Some (nextHandle s),
              timers := timers s @ [(nextHandle s, now + 2000)],
              nextHandle := nextHandle s + 1 \<rparr>)"

text \<open>
  \<^verbatim>\<open>persistCache\<close>: clears \<^verbatim>\<open>persistTimeoutId\<close> and hands the whole map, serialised in
  map order, to \<^verbatim>\<open>chrome.storage.local.set\<close>.
\<close>

definition serialize :: "(jsval \<times> entry) list \<Rightarrow> stored_entry list" where
  "serialize m = map (\<lambda>(k, v). \<lparr> data = data v, timestamp = timestamp v, key = k \<rparr>) m"

definition persistCache :: "state \<Rightarrow> state" where
  "persistCache s =
     s\<lparr> persistTimeoutId := None, storageSets := storageSets s @ [serialize (cache s)] \<rparr>"

text \<open>
  The host runs a pending timer once its delay has passed, and forgets it.
  \<^verbatim>\<open>None\<close>: no such timer is due.
\<close>

definition fire_timer :: "int \<Rightarrow> nat \<Rightarrow> state \<Rightarrow> state option" where
  "fire_timer now h s =
     (case map_of (timers s) h of
        None \<Rightarrow> None
      | Some due \<Rightarrow>
          if due \<le> now
          then Some (persistCache (s\<lparr> timers := filter (\<lambda>t. fst t \<noteq> h) (timers s) \<rparr>))
          else None)"

text \<open>
  \<^verbatim>\<open>cacheLookup\<close>; the first argument is \<^verbatim>\<open>Date.now()\<close>. The result is \<^verbatim>\<open>null\<close>
  (\<^verbatim>\<open>None\<close>) or \<^verbatim>\<open>{ data, age }\<close>.
\<close>

definition cacheLookup :: "int \<Rightarrow> jsval \<Rightarrow> state \<Rightarrow> (jsval \<times> int) option \<times> state" where
  "cacheLookup now k s =
     (if \<not> truthy k then (None, s)
      else case cache_get (cache s) k of
        None \<Rightarrow> (None, s)
      | Some e \<Rightarrow>
          let age = now - timestamp_or_0 (timestamp e) in
          if age > CACHE_TTL_MS
          then (None, schedulePersist now (s\<lparr> cache := cache_delete k (cache s) \<rparr>))
          else (Some (data e, age), s))"

text \<open>\<^verbatim>\<open>upsertCache\<close>\<close>

definition upsertCache :: "int \<Rightarrow> jsval \<Rightarrow> jsval \<Rightarrow> state \<Rightarrow> state" where
  "upsertCache now k d s =
     (if \<not> truthy k \<or> \<not> truthy d then s
      else schedulePersist now
             (s\<lparr> cache := cache_set k \<lparr> data = d, timestamp = Some now \<rparr> (cache s) \<rparr>))"

text \<open>
  \<^verbatim>\<open>pruneExpiredEntries\<close>: deleting the visited entry inside \<^verbatim>\<open>Map.prototype.forEach\<close>
  leaves the others in place, so the loop is a filter; \<^verbatim>\<open>removed\<close> counts the deletions.
\<close>

definition expired :: "int \<Rightarrow> entry \<Rightarrow> bool" where
  "expired now v = (now - timestamp_or_0 (timestamp v) > CACHE_TTL_MS)"

definition pruneExpiredEntries :: "int \<Rightarrow> state \<Rightarrow> state" where
  "pruneExpiredEntries now s =
     (let kept = filter (\<lambda>(k, v). \<not> expired now v) (cache s);
          removed = length (cache s) - length kept;
          s' = s\<lparr> cache := kept \<rparr>
      in if removed \<noteq> 0 then schedulePersist now s' else s')"

text \<open>
  \<^verbatim>\<open>ensureCacheLoaded\<close> returns the promise. A promise object is truthy, so the guard
  tests presence. A new promise runs its executor at once, which calls
  \<^verbatim>\<open>chrome.storage.local.get\<close>; the callback runs later.
\<close>

definition ensureCacheLoaded :: "state \<Rightarrow> nat \<times> state" where
  "ensureCacheLoaded s =
     (case cacheLoadPromise s of
        Some p \<Rightarrow> (p, s)
      | None \<Rightarrow>
          (promisesCreated s,
           s\<lparr> cacheLoadPromise := Some (promisesCreated s),
              promisesCreated := promisesCreated s + 1,
              storageGets := storageGets s + 1,
              getsPending := getsPending s + 1 \<rparr>))"

text \<open>
  The body of \<^verbatim>\<open>storedEntries.forEach\<close>. An array element is \<^verbatim>\<open>None\<close> when it is falsy
  (\<^verbatim>\<open>null\<close>); an element without a \<^verbatim>\<open>key\<close> has the key \<^verbatim>\<open>undefined\<close>.
\<close>

definition admit :: "int \<Rightarrow> stored_entry option \<Rightarrow> (jsval \<times> entry) list \<Rightarrow> (jsval \<times> entry) list" where
  "admit now x m =
     (case x of
        None \<Rightarrow> m
      | Some e \<Rightarrow>
          if \<not> truthy (key e) then m
          else let age = now - timestamp_or_0 (timestamp e) in
            if age \<le> CACHE_TTL_MS \<and> truthy (data e)
            then cache_set (key e) \<lparr> data = data e, timestamp = timestamp e \<rparr> m
            else m)"

text \<open>
  The callback of \<^verbatim>\<open>chrome.storage.local.get\<close>. The stored value is \<^verbatim>\<open>None\<close> when it is
  not an array. The two clock readings are the callback's \<^verbatim>\<open>Date.now()\<close> and the one of
  \<^verbatim>\<open>pruneExpiredEntries\<close>. \<^verbatim>\<open>None\<close>: no read is waiting for its callback.
\<close>

definition storage_get_callback ::
  "int \<Rightarrow> int \<Rightarrow> stored_entry option list option \<Rightarrow> state \<Rightarrow> state option" where
  "storage_get_callback now now' stored s =
     (if getsPending s = 0 then None
      else
        let storedEntries = (case stored of None \<Rightarrow> [] | Some xs \<Rightarrow> xs);
            s1 = s\<lparr> cache := foldl (\<lambda>m x. admit now x m) (cache s) storedEntries,
                    getsPending := getsPending s - 1 \<rparr>;
            s2 = (if storedEntries \<noteq> [] then pruneExpiredEntries now' s1 else s1)
        in Some (s2\<lparr> promiseResolved := True \<rparr>))"

subsection \<open>Runs of the cache operations\<close>

datatype event =
    EnsureCacheLoaded
  | StorageGetCallback int int "stored_entry option list option"
  | PruneExpiredEntries int
  | CacheLookup int jsval
  | UpsertCache int jsval jsval
  | TimerFires int nat

fun step :: "event \<Rightarrow> state \<Rightarrow> state option" where
  "step EnsureCacheLoaded s = Some (snd (ensureCacheLoaded s))"
| "step (StorageGetCallback now now' stored) s = storage_get_callback now now' stored s"
| "step (PruneExpiredEntries now) s = Some (pruneExpiredEntries now s)"
| "step (CacheLookup now k) s = Some (snd (cacheLookup now k s))"
| "step (UpsertCache now k d) s = Some (upsertCache now k d s)"
| "step (TimerFires now h) s = fire_timer now h s"

fun run :: "event list \<Rightarrow> state \<Rightarrow> state option" where
  "run [] s = Some s"
| "run (e # es) s = (case step e s of None \<Rightarrow> None | Some s' \<Rightarrow> run es s')"

definition reachable :: "event list \<Rightarrow> state \<Rightarrow> bool" where
  "reachable es s = (run es initial = Some s)"

section \<open>The platform's URL functions\<close>

text \<open>
  Strings are byte strings (UTF-8). What follows models the browser, not the repository:
  \<^verbatim>\<open>URLSearchParams\<close> and \<^verbatim>\<open>decodeURIComponent\<close>. The URL parser behind \<^verbatim>\<open>new URL\<close> is
  not modelled; what it did is an input, see \<open>url_result\<close> below.
\<close>

definition hexval :: "char \<Rightarrow> nat option" where
  "hexval c =
     (let n = (of_char c :: nat) in
      if 48 \<le> n \<and> n \<le> 57 then Some (n - 48)
      else if 65 \<le> n \<and> n \<le> 70 then Some (n - 55)
      else if 97 \<le> n \<and> n \<le> 102 then Some (n - 87)
      else None)"

text \<open>Percent-decoding of the URL standard: a malformed escape stays as it is.\<close>

fun percent_decode :: "string \<Rightarrow> string" where
  "percent_decode (c # h1 # h2 # rest) =
     (if c = CHR ''%''
      then (case (hexval h1, hexval h2) of
              (Some a, Some b) \<Rightarrow> char_of (16 * a + b) # percent_decode rest
            | _ \<Rightarrow> c # percent_decode (h1 # h2 # rest))
      else c # percent_decode (h1 # h2 # rest))"
| "percent_decode (c # cs) = c # percent_decode cs"
| "percent_decode [] = []"

definition replacement :: string where
  "replacement = [char_of (0xEF :: nat), char_of (0xBF :: nat), char_of (0xBD :: nat)]"

text \<open>
  UTF-8 decoding with replacement, on bytes: \<open>pend\<close> holds the bytes of the sequence
  under way, \<open>need\<close> how many are missing, \<open>lo\<close> and \<open>hi\<close> bound the next one. A
  byte that does not fit ends the sequence with U+FFFD and is read again.
\<close>

fun utf8_lossy :: "string \<Rightarrow> nat \<Rightarrow> nat \<Rightarrow> nat \<Rightarrow> string \<Rightarrow> string" where
  "utf8_lossy pend need lo hi [] = (if need = 0 then [] else replacement)"
| "utf8_lossy pend need lo hi (c # cs) =
     (let b = (of_char c :: nat) in
      if need = 0 then
        (if b \<le> 0x7F then c # utf8_lossy [] 0 0x80 0xBF cs
         else if 0xC2 \<le> b \<and> b \<le> 0xDF then utf8_lossy [c] 1 0x80 0xBF cs
         else if 0xE0 \<le> b \<and> b \<le> 0xEF
           then utf8_lossy [c] 2 (if b = 0xE0 then 0xA0 else 0x80) (if b = 0xED then 0x9F else 0xBF) cs
         else if 0xF0 \<le> b \<and> b \<le> 0xF4
           then utf8_lossy [c] 3 (if b = 0xF0 then 0x90 else 0x80) (if b = 0xF4 then 0x8F else 0xBF) cs
         else replacement @ utf8_lossy [] 0 0x80 0xBF cs)
      else if b < lo \<or> hi < b then replacement @ utf8_lossy [] 0 0x80 0xBF (c # cs)
      else if need = 1 then pend @ [c] @ utf8_lossy [] 0 0x80 0xBF cs
      else utf8_lossy (pend @ [c]) (need - 1) 0x80 0xBF cs)"

text \<open>The application/x-www-form-urlencoded parser behind \<^verbatim>\<open>url.searchParams\<close>.\<close>

fun split_on :: "char \<Rightarrow> string \<Rightarrow> string list" where
  "split_on sep [] = [] # []"
| "split_on sep (x # xs) =
     (if x = sep then [] # split_on sep xs
      else (case split_on sep xs of
              [] \<Rightarrow> [x] # []
            | w # ws \<Rightarrow> (x # w) # ws))"

definition form_decode :: "string \<Rightarrow> string" where
  "form_decode s =
     utf8_lossy [] 0 0x80 0xBF
       (percent_decode (map (\<lambda>c. if c = CHR ''+'' then CHR '' '' else c) s))"

definition parse_pair :: "string \<Rightarrow> string \<times> string" where
  "parse_pair seq =
     (form_decode (takeWhile (\<lambda>c. c \<noteq> CHR ''='') seq),
      form_decode (drop 1 (dropWhile (\<lambda>c. c \<noteq> CHR ''='') seq)))"

definition parse_query :: "string \<Rightarrow> (string \<times> string) list" where
  "parse_query q = map parse_pair (filter (\<lambda>seq. seq \<noteq> []) (split_on (CHR ''&'') q))"

text \<open>\<^verbatim>\<open>URLSearchParams.prototype.get\<close>: the first value of that name, or \<^verbatim>\<open>null\<close>.\<close>

definition searchParams_get :: "string \<Rightarrow> (string \<times> string) list \<Rightarrow> string option" where
  "searchParams_get name ps = map_of ps name"

text \<open>
  \<^verbatim>\<open>decodeURIComponent\<close>: \<^verbatim>\<open>None\<close> is the URIError. Every \<^verbatim>\<open>%\<close> must start an escape of
  two hex digits, and the escaped bytes from 0x80 on must spell well-formed UTF-8, each
  byte escaped. The state is that of \<open>utf8_lossy\<close>.
\<close>

fun decode_uri :: "nat \<Rightarrow> nat \<Rightarrow> nat \<Rightarrow> string \<Rightarrow> string option" where
  "decode_uri need lo hi [] = (if need = 0 then Some [] else None)"
| "decode_uri need lo hi (c # cs) =
     (if c = CHR ''%'' then
        (case cs of
           h1 # h2 # rest \<Rightarrow>
             (case (hexval h1, hexval h2) of
                (Some x, Some y) \<Rightarrow>
                  (let b = 16 * x + y in
                   if need = 0 then
                     (if b \<le> 0x7F then map_option ((#) (char_of b)) (decode_uri 0 0x80 0xBF rest)
                      else if 0xC2 \<le> b \<and> b \<le> 0xDF
                        then map_option ((#) (char_of b)) (decode_uri 1 0x80 0xBF rest)
                      else if 0xE0 \<le> b \<and> b \<le> 0xEF
                        then map_option ((#) (char_of b))
                               (decode_uri 2 (if b = 0xE0 then 0xA0 else 0x80)
                                  (if b = 0xED then 0x9F else 0xBF) rest)
                      else if 0xF0 \<le> b \<and> b \<le> 0xF4
                        then map_option ((#) (char_of b))
                               (decode_uri 3 (if b = 0xF0 then 0x90 else 0x80)
                                  (if b = 0xF4 then 0x8F else 0xBF) rest)
                      else None)
                   else if b < lo \<or> hi < b then None
                   else map_option ((#) (char_of b)) (decode_uri (need - 1) 0x80 0xBF rest))
              | _ \<Rightarrow> None)
         | _ \<Rightarrow> None)
      else if need = 0 then map_option ((#) c) (decode_uri 0 0x80 0xBF cs)
      else None)"

definition decodeURIComponent :: "string \<Rightarrow> string option" where
  "decodeURIComponent s = decode_uri 0 0x80 0xBF s"

section \<open>Key derivation and the fetch orchestrator\<close>

text \<open>The message \<^verbatim>\<open>{ action, apiUrl, cacheKey }\<close>; a missing \<^verbatim>\<open>cacheKey\<close> is \<^verbatim>\<open>undefined\<close>.\<close>

record request =
  action :: string
  apiUrl :: string
  cacheKey :: jsval

text \<open>
  What \<^verbatim>\<open>new URL(request.apiUrl)\<close> did, given like the answers of the network: it threw
  (no scheme, a bad host or port), or it made a URL, of which the code reads the query
  only, through \<^verbatim>\<open>searchParams\<close>. The query is the text between \<^verbatim>\<open>?\<close> and \<^verbatim>\<open>#\<close> as the URL
  holds it, empty when there is none.
\<close>

datatype url_result = Throws | Query string

text \<open>\<^verbatim>\<open>a || b\<close> on the results of \<^verbatim>\<open>searchParams.get\<close>: \<^verbatim>\<open>null\<close> and \<^verbatim>\<open>""\<close> are falsy.\<close>

definition js_or :: "string option \<Rightarrow> string option \<Rightarrow> string option" where
  "js_or a b = (case a of None \<Rightarrow> b | Some s \<Rightarrow> if s \<noteq> [] then a else b)"

text \<open>
  \<^verbatim>\<open>deriveCacheKey\<close>; the first argument is what \<^verbatim>\<open>new URL(request.apiUrl)\<close> does when it
  is called. Both exceptions of the \<^verbatim>\<open>try\<close> block end in \<^verbatim>\<open>request.apiUrl\<close>.
\<close>

definition deriveCacheKey :: "url_result \<Rightarrow> request \<Rightarrow> jsval" where
  "deriveCacheKey parsed r =
     (if truthy (cacheKey r) then cacheKey r
      else case parsed of
        Throws \<Rightarrow> JStr (apiUrl r)
      | Query q \<Rightarrow>
          (let ps = parse_query q;
               targetUrl = js_or (searchParams_get ''url'' ps) (searchParams_get ''source'' ps)
           in case targetUrl of
                None \<Rightarrow> JStr (apiUrl r)
              | Some t \<Rightarrow>
                  if t = [] then JStr (apiUrl r)
                  else (case decodeURIComponent t of
                          None \<Rightarrow> JStr (apiUrl r)
                        | Some d \<Rightarrow> JStr d)))"

text \<open>A number in a template literal: its decimal digits.\<close>

fun decimal :: "nat \<Rightarrow> string" where
  "decimal n =
     (if n < 10 then [char_of (48 + n)]
      else decimal (n div 10) @ [char_of (48 + n mod 10)])"

declare decimal.simps [simp del]

text \<open>
  What \<^verbatim>\<open>handleFetchTikTokData\<close> settles with: the result
  \<^verbatim>\<open>{ data, cacheHit, cacheAge }\<close>, or an \<^verbatim>\<open>Error\<close> with its message. The listener turns
  it into the reply; an empty message is falsy.
\<close>

datatype outcome = Resolved jsval bool int | Rejected string

datatype reply = DataReply jsval bool int | ErrorReply string

definition listener_reply :: "outcome \<Rightarrow> reply" where
  "listener_reply out =
     (case out of
        Resolved d hit age \<Rightarrow> DataReply d hit age
      | Rejected msg \<Rightarrow> ErrorReply (if msg \<noteq> [] then msg else ''Unknown error''))"

text \<open>
  \<^verbatim>\<open>handleFetchTikTokData\<close> suspends at three \<^verbatim>\<open>await\<close>s, and other requests may run
  in between; the function is cut there. A part ends with the settled promise, or
  waiting at the next \<^verbatim>\<open>await\<close>.
\<close>

datatype 'a progress = Settled outcome | Await 'a

text \<open>
  From \<^verbatim>\<open>pruneExpiredEntries()\<close> to the call of \<^verbatim>\<open>fetch\<close>, once the hydration promise
  is resolved; a miss waits for the response with the derived key. The clock is read
  by the prune and by the lookup; \<open>parsed\<close> is for \<^verbatim>\<open>deriveCacheKey\<close>.
\<close>

definition handle_lookup ::
  "int \<Rightarrow> int \<Rightarrow> url_result \<Rightarrow> request \<Rightarrow> state \<Rightarrow> jsval progress \<times> state" where
  "handle_lookup now now' parsed r s =
     (let s1 = pruneExpiredEntries now s;
          k = deriveCacheKey parsed r
      in case cacheLookup now' k s1 of
           (Some (d, age), s2) \<Rightarrow> (Settled (Resolved d True age), s2)
         | (None, s2) \<Rightarrow> (Await k, s2\<lparr> fetches := fetches s2 @ [apiUrl r] \<rparr>))"

text \<open>
  \<^verbatim>\<open>fetch\<close> settles: it rejects with a message (empty when there is none), or it
  fulfils with a response of some status; \<^verbatim>\<open>response.ok\<close> is a status from 200 to 299.
  An OK response waits for its body.
\<close>

datatype fetch_result = NetworkFailure string | Response nat

definition response_ok :: "nat \<Rightarrow> bool" where
  "response_ok status = (200 \<le> status \<and> status \<le> 299)"

definition handle_response :: "fetch_result \<Rightarrow> state \<Rightarrow> nat progress \<times> state" where
  "handle_response res s =
     (case res of
        NetworkFailure msg \<Rightarrow>
          (Settled (Rejected (if msg \<noteq> [] then msg else ''Network error'')), s)
      | Response status \<Rightarrow>
          if \<not> response_ok status
          then (Settled (Rejected (''HTTP error: '' @ decimal status)), s)
          else (Await status, s))"

text \<open>
  \<^verbatim>\<open>response.json()\<close> settles: \<^verbatim>\<open>None\<close> when the body does not parse, else the payload.
  The clock is read by \<^verbatim>\<open>upsertCache\<close>.
\<close>

definition handle_json :: "int \<Rightarrow> jsval \<Rightarrow> jsval option \<Rightarrow> state \<Rightarrow> outcome \<times> state" where
  "handle_json now k body s =
     (case body of
        None \<Rightarrow> (Rejected ''Failed to parse API response'', s)
      | Some payload \<Rightarrow> (Resolved payload False 0, upsertCache now k payload s))"

text \<open>
  What the listener does with a \<^verbatim>\<open>fetchTikTokData\<close> message when the hydration promise
  is resolved and nothing else runs at the suspensions: the three parts in a row and the
  reply. What the URL parser did is \<open>parsed\<close>, what the network did is \<open>res\<close>, and
  \<open>body\<close> for a response that was read.
\<close>

definition handle_request ::
  "int \<Rightarrow> int \<Rightarrow> int \<Rightarrow> url_result \<Rightarrow> request \<Rightarrow> fetch_result \<Rightarrow> jsval option \<Rightarrow> state
     \<Rightarrow> reply \<times> state" where
  "handle_request now now' now'' parsed r res body s =
     (case handle_lookup now now' parsed r s of
        (Settled out, s1) \<Rightarrow> (listener_reply out, s1)
      | (Await k, s1) \<Rightarrow>
          (case handle_response res s1 of
             (Settled out, s2) \<Rightarrow> (listener_reply out, s2)
           | (Await status, s2) \<Rightarrow>
               (case handle_json now'' k body s2 of
                  (out, s3) \<Rightarrow> (listener_reply out, s3))))"

section \<open>The structured logger\<close>

text \<open>\<^verbatim>\<open>LEVEL_ORDER\<close> and its keys.\<close>

datatype log_level = Debug | Info | Warn | Error

fun LEVEL_ORDER :: "log_level \<Rightarrow> nat" where
  "LEVEL_ORDER Debug = 0"
| "LEVEL_ORDER Info = 1"
| "LEVEL_ORDER Warn = 2"
| "LEVEL_ORDER Error = 3"

fun level_name :: "log_level \<Rightarrow> string" where
  "level_name Debug = ''debug''"
| "level_name Info = ''info''"
| "level_name Warn = ''warn''"
| "level_name Error = ''error''"

text \<open>\<^verbatim>\<open>LEVEL_ORDER.hasOwnProperty(name)\<close>, with the level it names.\<close>

definition known_level :: "string \<Rightarrow> log_level option" where
  "known_level name =
     (if name = ''debug'' then Some Debug
      else if name = ''info'' then Some Info
      else if name = ''warn'' then Some Warn
      else if name = ''error'' then Some Error
      else None)"

definition to_lower :: "char \<Rightarrow> char" where
  "to_lower c =
     (let n = (of_char c :: nat) in if 65 \<le> n \<and> n \<le> 90 then char_of (n + 32) else c)"

definition to_upper :: "char \<Rightarrow> char" where
  "to_upper c =
     (let n = (of_char c :: nat) in if 97 \<le> n \<and> n \<le> 122 then char_of (n - 32) else c)"

text \<open>
  \<^verbatim>\<open>resolveLevel\<close>, under the global level of the moment. The argument is \<^verbatim>\<open>None\<close> for
  \<^verbatim>\<open>undefined\<close>, else what \<^verbatim>\<open>String(level)\<close> gives; the empty string is falsy.
\<close>

definition resolveLevel :: "log_level \<Rightarrow> string option \<Rightarrow> log_level" where
  "resolveLevel globalLevel lvl =
     (case lvl of
        None \<Rightarrow> globalLevel
      | Some name \<Rightarrow>
          if name = [] then globalLevel
          else (case known_level (map to_lower name) of
                  Some l \<Rightarrow> l
                | None \<Rightarrow> globalLevel))"

definition shouldLog :: "log_level \<Rightarrow> string option \<Rightarrow> bool" where
  "shouldLog globalLevel lvl =
     (LEVEL_ORDER (resolveLevel globalLevel lvl) \<ge> LEVEL_ORDER globalLevel)"

text \<open>
  A scope argument: a falsy value that is no string, a string, or a truthy value that
  is no string, given by what \<^verbatim>\<open>String(scope)\<close> makes of it.
\<close>

datatype scope_arg = NoScope | ScopeString string | ScopeOther string

definition scope_truthy :: "scope_arg \<Rightarrow> bool" where
  "scope_truthy a = (case a of NoScope \<Rightarrow> False | ScopeString s \<Rightarrow> s \<noteq> [] | ScopeOther s \<Rightarrow> True)"

text \<open>\<^verbatim>\<open>String.prototype.trim\<close>, on the white space of ASCII.\<close>

definition white_space :: "char \<Rightarrow> bool" where
  "white_space c = ((of_char c :: nat) \<in> {9, 10, 11, 12, 13, 32})"

definition trim :: "string \<Rightarrow> string" where
  "trim s = rev (dropWhile white_space (rev (dropWhile white_space s)))"

definition sanitizeScope :: "scope_arg \<Rightarrow> string" where
  "sanitizeScope a =
     (if \<not> scope_truthy a then ''app''
      else case a of
        ScopeOther s \<Rightarrow> s
      | ScopeString s \<Rightarrow> (if trim s \<noteq> [] then trim s else ''app'')
      | NoScope \<Rightarrow> ''app'')"

text \<open>\<^verbatim>\<open>options\<close>: \<^verbatim>\<open>level\<close>, and \<^verbatim>\<open>denyList\<close>, an array or a single value.\<close>

datatype deny_arg = DenyArray "scope_arg list" | DenyValue scope_arg

record options =
  level :: "string option"
  denyList :: deny_arg

text \<open>What the closure of \<^verbatim>\<open>createScopedLogger\<close> holds.\<close>

record logger =
  loggerScope :: string
  localLevel :: log_level
  denied :: "string list"
  loggerOptions :: options

definition createScopedLogger :: "log_level \<Rightarrow> scope_arg \<Rightarrow> options \<Rightarrow> logger" where
  "createScopedLogger globalLevel scope opts =
     \<lparr> loggerScope = sanitizeScope scope,
       localLevel = resolveLevel globalLevel (level opts),
       denied = map sanitizeScope
                  (filter scope_truthy
                     (case denyList opts of DenyArray xs \<Rightarrow> xs | DenyValue x \<Rightarrow> [x])),
       loggerOptions = opts \<rparr>"

text \<open>
  \<^verbatim>\<open>log\<close>: \<^verbatim>\<open>None\<close> when nothing is written, else the level that picks the console
  method, the prefix and the message. The global level is the one at the call; the
  time stamp is \<^verbatim>\<open>new Date().toISOString()\<close>.
\<close>

record log_record =
  rec_level :: log_level
  rec_prefix :: string
  rec_message :: string

definition log :: "log_level \<Rightarrow> logger \<Rightarrow> string \<Rightarrow> string option \<Rightarrow> string \<Rightarrow> log_record option" where
  "log globalLevel lg stamp lvl message =
     (let targetLevel = resolveLevel globalLevel lvl in
      if \<not> shouldLog globalLevel (Some (level_name targetLevel))
         \<or> LEVEL_ORDER targetLevel < LEVEL_ORDER (localLevel lg) then None
      else if loggerScope lg \<in> set (denied lg) then None
      else Some \<lparr> rec_level = targetLevel,
                  rec_prefix = ''['' @ stamp @ ''] ['' @ loggerScope lg @ ''] [''
                               @ map to_upper (level_name targetLevel) @ '']'',
                  rec_message = message \<rparr>)"

text \<open>\<^verbatim>\<open>child\<close> and \<^verbatim>\<open>setLevel\<close>.\<close>

definition child :: "log_level \<Rightarrow> logger \<Rightarrow> scope_arg \<Rightarrow> logger" where
  "child globalLevel lg suffix =
     createScopedLogger globalLevel
       (ScopeString (loggerScope lg @ '':'' @ sanitizeScope suffix)) (loggerOptions lg)"

definition setLevel :: "log_level \<Rightarrow> string option \<Rightarrow> log_level" where
  "setLevel globalLevel lvl = resolveLevel globalLevel lvl"

section \<open>Properties of states\<close>

text \<open>
  The timer bookkeeping is sound: handles are positive, and \<^verbatim>\<open>persistTimeoutId\<close> names
  the one pending timer, or is \<^verbatim>\<open>null\<close> when there is none.
\<close>

definition timers_ok :: "state \<Rightarrow> bool" where
  "timers_ok s =
     (nextHandle s \<noteq> 0 \<and>
      (case persistTimeoutId s of
         None \<Rightarrow> timers s = []
       | Some h \<Rightarrow> h \<noteq> 0 \<and> h < nextHandle s \<and> map fst (timers s) = [h]))"

text \<open>The keys of the map are distinct, as those of a \<^verbatim>\<open>Map\<close> are.\<close>

definition keys_distinct :: "state \<Rightarrow> bool" where
  "keys_distinct s = distinct (map fst (cache s))"

text \<open>Every entry of the map has a truthy key and truthy data.\<close>

definition entries_truthy :: "(jsval \<times> entry) list \<Rightarrow> bool" where
  "entries_truthy m = list_all (\<lambda>(k, v). truthy k \<and> truthy (data v)) m"

text \<open>
  A string has a malformed escape when some \<^verbatim>\<open>%\<close> in it is not followed by two hex
  digits.
\<close>

definition hex_pair :: "string \<Rightarrow> bool" where
  "hex_pair s = (case s of h1 # h2 # rest \<Rightarrow> hexval h1 \<noteq> None \<and> hexval h2 \<noteq> None | _ \<Rightarrow> False)"

fun malformed_escape :: "string \<Rightarrow> bool" where
  "malformed_escape [] = False"
| "malformed_escape (c # cs) = ((c = CHR ''%'' \<and> \<not> hex_pair cs) \<or> malformed_escape cs)"

text \<open>Upserts one after the other, each with its clock reading, key and data.\<close>

fun upsert_all :: "(int \<times> jsval \<times> jsval) list \<Rightarrow> state \<Rightarrow> state" where
  "upsert_all [] s = s"
| "upsert_all ((t, k, d) # us) s = upsert_all us (upsertCache t k d s)"

section \<open>The persist timer\<close>

lemma cache_schedulePersist: "cache (schedulePersist now s) = cache s"
  by (simp add: schedulePersist_def)

lemma timers_ok_schedulePersist: "timers_ok s \<Longrightarrow> timers_ok (schedulePersist now s)"
  by (auto simp: timers_ok_def schedulePersist_def handle_truthy_def split: option.splits)

lemma schedulePersist_pending:
  "timers_ok s \<Longrightarrow> \<exists>h due. persistTimeoutId (schedulePersist now s) = Some h \<and> timers (schedulePersist now s) = [(h, due)]"
  by (auto simp: timers_ok_def schedulePersist_def handle_truthy_def split: option.splits)

lemma timers_ok_cache_update: "timers_ok (s\<lparr>cache := m\<rparr>) = timers_ok s"
  by (simp add: timers_ok_def split: option.splits)

lemma timers_ok_cacheLookup: "timers_ok s \<Longrightarrow> timers_ok (snd (cacheLookup now k s))"
  by (simp add: cacheLookup_def Let_def timers_ok_schedulePersist timers_ok_cache_update split: option.splits)

lemma timers_ok_upsertCache: "timers_ok s \<Longrightarrow> timers_ok (upsertCache now k d s)"
  by (simp add: upsertCache_def timers_ok_schedulePersist timers_ok_cache_update)

lemma timers_ok_prune: "timers_ok s \<Longrightarrow> timers_ok (pruneExpiredEntries now s)"
  by (simp add: pruneExpiredEntries_def Let_def timers_ok_schedulePersist timers_ok_cache_update)

lemma timers_ok_ensure: "timers_ok s \<Longrightarrow> timers_ok (snd (ensureCacheLoaded s))"
  by (simp add: ensureCacheLoaded_def timers_ok_def split: option.splits)

lemma timers_ok_fire: "timers_ok s \<Longrightarrow> fire_timer now h s = Some s' \<Longrightarrow> timers_ok s'"
  by (auto simp: fire_timer_def persistCache_def timers_ok_def split: option.splits if_splits)

lemma timers_ok_cong:
  "nextHandle s' = nextHandle s \<Longrightarrow> persistTimeoutId s' = persistTimeoutId s \<Longrightarrow>
   timers s' = timers s \<Longrightarrow> timers_ok s' = timers_ok s"
  by (simp add: timers_ok_def split: option.splits)

lemma timers_ok_callback:
  assumes ok: "timers_ok s" and cb: "storage_get_callback now now' st s = Some s'"
  shows "timers_ok s'"
proof -
  define es where "es = (case st of None \<Rightarrow> [] | Some xs \<Rightarrow> xs)"
  define s1 where "s1 = s\<lparr> cache := foldl (\<lambda>m x. admit now x m) (cache s) es,
    getsPending := getsPending s - 1 \<rparr>"
  define s2 where "s2 = (if es \<noteq> [] then pruneExpiredEntries now' s1 else s1)"
  have s': "s' = s2\<lparr> promiseResolved := True \<rparr>"
    using cb unfolding storage_get_callback_def Let_def s2_def s1_def es_def
    by (simp split: if_splits)
  have "timers_ok s1" using ok timers_ok_cong[of s1 s] by (simp add: s1_def)
  then have "timers_ok s2" by (simp add: s2_def timers_ok_prune)
  then show ?thesis using timers_ok_cong[of s' s2] by (simp add: s')
qed

lemma timers_ok_step: "timers_ok s \<Longrightarrow> step e s = Some s' \<Longrightarrow> timers_ok s'"
  by (cases e) (auto simp: timers_ok_cacheLookup timers_ok_upsertCache timers_ok_prune
      timers_ok_ensure intro: timers_ok_fire timers_ok_callback)

lemma run_invariant:
  assumes "\<And>e s s'. I s \<Longrightarrow> step e s = Some s' \<Longrightarrow> I s'"
  shows "I s \<Longrightarrow> run es s = Some s' \<Longrightarrow> I s'"
proof (induction es arbitrary: s)
  case Nil
  then show ?case by simp
next
  case (Cons e es)
  then show ?case using assms by (auto split: option.splits)
qed

lemma timers_ok_initial: "timers_ok initial"
  by (simp add: timers_ok_def initial_def)

lemma timers_ok_reachable: "reachable es s \<Longrightarrow> timers_ok s"
  unfolding reachable_def
  by (rule run_invariant[where I = timers_ok, OF timers_ok_step timers_ok_initial])

section \<open>The map keeps distinct keys and truthy entries\<close>

lemma keys_distinct_cache_set: "distinct (map fst m) \<Longrightarrow> distinct (map fst (cache_set k v m))"
  by (simp add: cache_set_def distinct_update)

lemma keys_distinct_cache_delete: "distinct (map fst m) \<Longrightarrow> distinct (map fst (cache_delete k m))"
  by (simp add: cache_delete_def distinct_delete)

lemma keys_distinct_filter: "distinct (map fst m) \<Longrightarrow> distinct (map fst (filter P m))"
  by (simp add: distinct_map_filter)

lemma keys_distinct_admit: "distinct (map fst m) \<Longrightarrow> distinct (map fst (admit now x m))"
  by (simp add: admit_def Let_def keys_distinct_cache_set split: option.splits)

lemma keys_distinct_foldl_admit:
  "distinct (map fst m) \<Longrightarrow> distinct (map fst (foldl (\<lambda>m x. admit now x m) m xs))"
  by (induction xs arbitrary: m) (simp_all add: keys_distinct_admit)

lemma keys_distinct_cacheLookup: "keys_distinct s \<Longrightarrow> keys_distinct (snd (cacheLookup now k s))"
  by (simp add: keys_distinct_def cacheLookup_def Let_def cache_schedulePersist
      keys_distinct_cache_delete split: option.splits)

lemma keys_distinct_upsertCache: "keys_distinct s \<Longrightarrow> keys_distinct (upsertCache now k d s)"
  by (simp add: keys_distinct_def upsertCache_def cache_schedulePersist keys_distinct_cache_set)

lemma cache_prune:
  "cache (pruneExpiredEntries now s) = filter (\<lambda>(k, v). \<not> expired now v) (cache s)"
  by (simp add: pruneExpiredEntries_def Let_def cache_schedulePersist)

lemma keys_distinct_prune: "keys_distinct s \<Longrightarrow> keys_distinct (pruneExpiredEntries now s)"
  by (simp add: keys_distinct_def cache_prune keys_distinct_filter)

lemma cache_ensure: "cache (snd (ensureCacheLoaded s)) = cache s"
  by (simp add: ensureCacheLoaded_def split: option.splits)

lemma keys_distinct_ensure: "keys_distinct s \<Longrightarrow> keys_distinct (snd (ensureCacheLoaded s))"
  by (simp add: keys_distinct_def cache_ensure)

lemma cache_fire: "fire_timer now h s = Some s' \<Longrightarrow> cache s' = cache s"
  by (auto simp: fire_timer_def persistCache_def split: option.splits if_splits)

lemma cache_callback:
  "storage_get_callback now now' st s = Some s' \<Longrightarrow>
   cache s' = (let xs = (case st of None \<Rightarrow> [] | Some xs \<Rightarrow> xs);
                   m = foldl (\<lambda>m x. admit now x m) (cache s) xs
               in if xs \<noteq> [] then filter (\<lambda>(k, v). \<not> expired now' v) m else m)"
  by (auto simp: storage_get_callback_def Let_def cache_prune split: if_splits)

lemma keys_distinct_step: "keys_distinct s \<Longrightarrow> step e s = Some s' \<Longrightarrow> keys_distinct s'"
proof (cases e)
  case (StorageGetCallback now now' st)
  assume "keys_distinct s" "step e s = Some s'"
  then show ?thesis using StorageGetCallback cache_callback[of now now' st s s']
    by (simp add: keys_distinct_def Let_def keys_distinct_filter keys_distinct_foldl_admit)
next
  case (TimerFires now h)
  assume "keys_distinct s" "step e s = Some s'"
  then show ?thesis using TimerFires cache_fire[of now h s s'] by (simp add: keys_distinct_def)
qed (auto simp: keys_distinct_cacheLookup keys_distinct_upsertCache keys_distinct_prune
    keys_distinct_ensure)

lemma keys_distinct_initial: "keys_distinct initial"
  by (simp add: keys_distinct_def initial_def)

lemma keys_distinct_reachable: "reachable es s \<Longrightarrow> keys_distinct s"
  unfolding reachable_def
  by (rule run_invariant[where I = keys_distinct, OF keys_distinct_step keys_distinct_initial])

lemma entries_truthy_cache_set:
  "entries_truthy m \<Longrightarrow> truthy k \<Longrightarrow> truthy (data v) \<Longrightarrow> entries_truthy (cache_set k v m)"
  unfolding entries_truthy_def cache_set_def
  by (induction m) auto

lemma entries_truthy_filter: "entries_truthy m \<Longrightarrow> entries_truthy (filter P m)"
  by (simp add: entries_truthy_def list_all_iff)

lemma entries_truthy_cache_delete: "entries_truthy m \<Longrightarrow> entries_truthy (cache_delete k m)"
  by (simp add: cache_delete_def AList.delete_eq entries_truthy_filter)

lemma entries_truthy_admit: "entries_truthy m \<Longrightarrow> entries_truthy (admit now x m)"
  by (simp add: admit_def Let_def entries_truthy_cache_set split: option.splits)

lemma entries_truthy_foldl_admit:
  "entries_truthy m \<Longrightarrow> entries_truthy (foldl (\<lambda>m x. admit now x m) m xs)"
  by (induction xs arbitrary: m) (simp_all add: entries_truthy_admit)

lemma entries_truthy_cacheLookup:
  "entries_truthy (cache s) \<Longrightarrow> entries_truthy (cache (snd (cacheLookup now k s)))"
  by (simp add: cacheLookup_def Let_def cache_schedulePersist entries_truthy_cache_delete
      split: option.splits)

lemma entries_truthy_upsertCache:
  "entries_truthy (cache s) \<Longrightarrow> entries_truthy (cache (upsertCache now k d s))"
  by (simp add: upsertCache_def cache_schedulePersist entries_truthy_cache_set)

lemma entries_truthy_step:
  "entries_truthy (cache s) \<Longrightarrow> step e s = Some s' \<Longrightarrow> entries_truthy (cache s')"
proof (cases e)
  case (StorageGetCallback now now' st)
  assume "entries_truthy (cache s)" "step e s = Some s'"
  then show ?thesis using StorageGetCallback cache_callback[of now now' st s s']
    by (simp add: Let_def entries_truthy_filter entries_truthy_foldl_admit)
next
  case (TimerFires now h)
  assume "entries_truthy (cache s)" "step e s = Some s'"
  then show ?thesis using TimerFires cache_fire[of now h s s'] by simp
qed (auto simp: entries_truthy_cacheLookup entries_truthy_upsertCache cache_prune
    entries_truthy_filter cache_ensure)

lemma entries_truthy_run:
  "entries_truthy (cache s) \<Longrightarrow> run es s = Some s' \<Longrightarrow> entries_truthy (cache s')"
  by (rule run_invariant[where I = "\<lambda>s. entries_truthy (cache s)", OF entries_truthy_step])

section \<open>Lookup\<close>

text \<open>
  Claim C1. \<^verbatim>\<open>cacheLookup\<close> returns \<^verbatim>\<open>null\<close> for a falsy key and for a key that is not
  in the map, both without touching the state. For a mapped truthy key whose age
  \<open>now - (timestamp || 0)\<close> is above 3600000 it returns \<^verbatim>\<open>null\<close>, the key is gone from
  the map, every other key is as before, and a persist is pending afterwards. At an age
  of at most 3600000, and so at exactly 3600000, it returns the entry's data with that
  age and leaves the state alone.
\<close>

theorem cacheLookup_contract:
  assumes "timers_ok s"
  shows "(\<not> truthy k \<longrightarrow> cacheLookup now k s = (None, s)) \<and>
    (cache_get (cache s) k = None \<longrightarrow> cacheLookup now k s = (None, s)) \<and>
    (truthy k \<and> cache_get (cache s) k = Some e \<and> now - timestamp_or_0 (timestamp e) > 3600000 \<longrightarrow>
       fst (cacheLookup now k s) = None \<and>
       cache_get (cache (snd (cacheLookup now k s))) k = None \<and>
       (\<forall>k'. k' \<noteq> k \<longrightarrow>
          cache_get (cache (snd (cacheLookup now k s))) k' = cache_get (cache s) k') \<and>
       (\<exists>h due. persistTimeoutId (snd (cacheLookup now k s)) = Some h \<and>
                 timers (snd (cacheLookup now k s)) = [(h, due)])) \<and>
    (truthy k \<and> cache_get (cache s) k = Some e \<and> now - timestamp_or_0 (timestamp e) \<le> 3600000 \<longrightarrow>
       cacheLookup now k s = (Some (data e, now - timestamp_or_0 (timestamp e)), s)) \<and>
    (truthy k \<and> cache_get (cache s) k = Some e \<and> now - timestamp_or_0 (timestamp e) = 3600000 \<longrightarrow>
       cacheLookup now k s = (Some (data e, 3600000), s))"
proof -
  have falsy: "\<not> truthy k \<longrightarrow> cacheLookup now k s = (None, s)"
    by (simp add: cacheLookup_def)
  have unmapped: "cache_get (cache s) k = None \<longrightarrow> cacheLookup now k s = (None, s)"
    by (simp add: cacheLookup_def)
  have stale: "fst (cacheLookup now k s) = None \<and>
       cache_get (cache (snd (cacheLookup now k s))) k = None \<and>
       (\<forall>k'. k' \<noteq> k \<longrightarrow>
          cache_get (cache (snd (cacheLookup now k s))) k' = cache_get (cache s) k') \<and>
       (\<exists>h due. persistTimeoutId (snd (cacheLookup now k s)) = Some h \<and>
                 timers (snd (cacheLookup now k s)) = [(h, due)])"
    if k: "truthy k" and e: "cache_get (cache s) k = Some e"
      and old: "now - timestamp_or_0 (timestamp e) > 3600000"
  proof -
    let ?s1 = "s\<lparr>cache := cache_delete k (cache s)\<rparr>"
    have eq: "cacheLookup now k s = (None, schedulePersist now ?s1)"
      using k e old by (simp add: cacheLookup_def CACHE_TTL_MS_def)
    have ok: "timers_ok ?s1" using assms by (simp add: timers_ok_cache_update)
    show ?thesis
      using schedulePersist_pending[OF ok, of now]
      by (simp add: eq cache_schedulePersist cache_get_def cache_delete_def delete_conv')
  qed
  have fresh: "truthy k \<and> cache_get (cache s) k = Some e \<and>
       now - timestamp_or_0 (timestamp e) \<le> 3600000 \<longrightarrow>
       cacheLookup now k s = (Some (data e, now - timestamp_or_0 (timestamp e)), s)"
    by (simp add: cacheLookup_def CACHE_TTL_MS_def)
  have edge: "truthy k \<and> cache_get (cache s) k = Some e \<and>
       now - timestamp_or_0 (timestamp e) = 3600000 \<longrightarrow>
       cacheLookup now k s = (Some (data e, 3600000), s)"
    by (simp add: cacheLookup_def CACHE_TTL_MS_def)
  from falsy unmapped stale fresh edge show ?thesis by blast
qed

text \<open>
  The key \<^verbatim>\<open>"a"\<close> is stored at time 0. At 3600000 it is present with that age, at
  3600001 it is absent and deleted; the empty key and the key \<^verbatim>\<open>"b"\<close> are absent.
\<close>

theorem cacheLookup_contract_witness:
  "cacheLookup 3600000 (JStr ''a'') (upsertCache 0 (JStr ''a'') (JNum 1) initial) =
     (Some (JNum 1, 3600000), upsertCache 0 (JStr ''a'') (JNum 1) initial) \<and>
   fst (cacheLookup 3600001 (JStr ''a'') (upsertCache 0 (JStr ''a'') (JNum 1) initial)) = None \<and>
   cache_get (cache (snd (cacheLookup 3600001 (JStr ''a'')
      (upsertCache 0 (JStr ''a'') (JNum 1) initial)))) (JStr ''a'') = None \<and>
   cacheLookup 5 (JStr []) (upsertCache 0 (JStr ''a'') (JNum 1) initial) =
     (None, upsertCache 0 (JStr ''a'') (JNum 1) initial) \<and>
   cacheLookup 5 (JStr ''b'') (upsertCache 0 (JStr ''a'') (JNum 1) initial) =
     (None, upsertCache 0 (JStr ''a'') (JNum 1) initial)"
proof -
  let ?S = "upsertCache 0 (JStr ''a'') (JNum 1) initial"
  let ?e = "\<lparr> data = JNum 1, timestamp = Some 0 \<rparr>"
  have ok: "timers_ok ?S" by code_simp
  have a: "truthy (JStr ''a'')" and nil: "\<not> truthy (JStr [])" by simp_all
  have e: "cache_get (cache ?S) (JStr ''a'') = Some ?e" by code_simp
  have b: "cache_get (cache ?S) (JStr ''b'') = None" by code_simp
  have t0: "timestamp_or_0 (timestamp ?e) = 0" by (simp add: timestamp_or_0_def)
  have "cacheLookup 3600000 (JStr ''a'') ?S = (Some (JNum 1, 3600000), ?S)"
    using cacheLookup_contract[OF ok, where k = "JStr ''a''" and now = 3600000 and e = ?e] a e t0
    by simp
  moreover have "fst (cacheLookup 3600001 (JStr ''a'') ?S) = None \<and>
    cache_get (cache (snd (cacheLookup 3600001 (JStr ''a'') ?S))) (JStr ''a'') = None"
    using cacheLookup_contract[OF ok, where k = "JStr ''a''" and now = 3600001 and e = ?e] a e t0
    by simp
  moreover have "cacheLookup 5 (JStr []) ?S = (None, ?S)"
    using cacheLookup_contract[OF ok, where k = "JStr []" and now = 5] nil by blast
  moreover have "cacheLookup 5 (JStr ''b'') ?S = (None, ?S)"
    using cacheLookup_contract[OF ok, where k = "JStr ''b''" and now = 5] b by blast
  ultimately show ?thesis by blast
qed

section \<open>Truthy keys and data\<close>

lemma set_cache_cacheLookup: "set (cache (snd (cacheLookup now k s))) \<subseteq> set (cache s)"
  by (auto simp: cacheLookup_def Let_def cache_schedulePersist cache_delete_def AList.delete_eq
      split: option.splits)

text \<open>
  Claim C8. In every state reached from the start by the operations on the map, each
  entry has a truthy key and truthy data. Each operation keeps it so: the hydration
  callback admits a stored entry only with a truthy key and truthy data, an upsert with a
  falsy key or falsy data changes nothing, and a lookup and a prune leave a part of the
  entries they found.
\<close>

theorem cache_entries_truthy:
  "(reachable es s \<longrightarrow> entries_truthy (cache s)) \<and>
   (entries_truthy (cache s) \<and> step ev s = Some s' \<longrightarrow> entries_truthy (cache s')) \<and>
   (entries_truthy m \<longrightarrow> entries_truthy (admit now x m)) \<and>
   (\<not> (truthy k \<and> truthy d) \<longrightarrow> upsertCache now k d s = s) \<and>
   set (cache (snd (cacheLookup now k s))) \<subseteq> set (cache s) \<and>
   set (cache (pruneExpiredEntries now s)) \<subseteq> set (cache s)"
proof -
  have "entries_truthy (cache initial)"
    by (simp add: entries_truthy_def initial_def)
  then have "reachable es s \<longrightarrow> entries_truthy (cache s)"
    unfolding reachable_def using entries_truthy_run by blast
  moreover have "\<not> (truthy k \<and> truthy d) \<longrightarrow> upsertCache now k d s = s"
    by (simp add: upsertCache_def)
  moreover have "set (cache (pruneExpiredEntries now s)) \<subseteq> set (cache s)"
    by (simp add: cache_prune)
  ultimately show ?thesis
    using entries_truthy_step entries_truthy_admit set_cache_cacheLookup by blast
qed

text \<open>
  A run that hydrates from a stored array with a \<^verbatim>\<open>null\<close>, an entry with \<^verbatim>\<open>null\<close> data,
  an entry with an empty key and a good entry, then upserts \<^verbatim>\<open>null\<close> and a good payload:
  the map holds the two good entries.
\<close>

theorem cache_entries_truthy_witness:
  "reachable
     [EnsureCacheLoaded,
      StorageGetCallback 1000 1000
        (Some [None,
               Some \<lparr> data = JNull, timestamp = Some 900, key = JStr ''x'' \<rparr>,
               Some \<lparr> data = JNum 1, timestamp = Some 900, key = JStr [] \<rparr>,
               Some \<lparr> data = JNum 1, timestamp = Some 900, key = JStr ''k'' \<rparr>]),
      UpsertCache 1100 (JStr ''j'') JNull,
      UpsertCache 1100 (JStr ''j'') (JNum 2)]
     \<lparr> cache = [(JStr ''k'', \<lparr> data = JNum 1, timestamp = Some 900 \<rparr>),
                (JStr ''j'', \<lparr> data = JNum 2, timestamp = Some 1100 \<rparr>)],
       cacheLoadPromise = Some 0, persistTimeoutId = Some 1, timers = [(1, 3100)],
       nextHandle = 2, promisesCreated = 1, storageGets = 1, getsPending = 0,
       storageSets = [], promiseResolved = True, fetches = [] \<rparr> \<and>
   entries_truthy
     [(JStr ''k'', \<lparr> data = JNum 1, timestamp = Some 900 \<rparr>),
      (JStr ''j'', \<lparr> data = JNum 2, timestamp = Some 1100 \<rparr>)]"
proof -
  let ?es = "[EnsureCacheLoaded,
      StorageGetCallback 1000 1000
        (Some [None,
               Some \<lparr> data = JNull, timestamp = Some 900, key = JStr ''x'' \<rparr>,
               Some \<lparr> data = JNum 1, timestamp = Some 900, key = JStr [] \<rparr>,
               Some \<lparr> data = JNum 1, timestamp = Some 900, key = JStr ''k'' \<rparr>]),
      UpsertCache 1100 (JStr ''j'') JNull,
      UpsertCache 1100 (JStr ''j'') (JNum 2)]"
  let ?S = "\<lparr> cache = [(JStr ''k'', \<lparr> data = JNum 1, timestamp = Some 900 \<rparr>),
                (JStr ''j'', \<lparr> data = JNum 2, timestamp = Some 1100 \<rparr>)],
       cacheLoadPromise = Some 0, persistTimeoutId = Some 1, timers = [(1, 3100)],
       nextHandle = 2, promisesCreated = 1, storageGets = 1, getsPending = 0,
       storageSets = [], promiseResolved = True, fetches = [] \<rparr>"
  have r: "reachable ?es ?S" by code_simp
  from cache_entries_truthy[where es = ?es and s = ?S] r
  have "entries_truthy (cache ?S)" by blast
  with r show ?thesis by simp
qed

section \<open>Debounced persist\<close>

lemma schedulePersist_pending_noop: "handle_truthy (persistTimeoutId s) \<Longrightarrow> schedulePersist now s = s"
  by (simp add: schedulePersist_def)

lemma upsertCache_effective:
  "truthy k \<Longrightarrow> truthy d \<Longrightarrow>
   upsertCache t k d s =
     schedulePersist t (s\<lparr> cache := cache_set k \<lparr> data = d, timestamp = Some t \<rparr> (cache s) \<rparr>)"
  by (simp add: upsertCache_def)

lemma upsertCache_first:
  assumes "timers_ok s" "persistTimeoutId s = None" "truthy k" "truthy d"
  shows "timers (upsertCache t k d s) = [(nextHandle s, t + 2000)] \<and>
         persistTimeoutId (upsertCache t k d s) = Some (nextHandle s) \<and>
         storageSets (upsertCache t k d s) = storageSets s"
  using assms
  by (simp add: upsertCache_effective schedulePersist_def handle_truthy_def timers_ok_def)

lemma upsertCache_pending:
  assumes "timers_ok s" "persistTimeoutId s = Some h"
  shows "timers (upsertCache t k d s) = timers s \<and>
         persistTimeoutId (upsertCache t k d s) = Some h \<and>
         storageSets (upsertCache t k d s) = storageSets s"
  using assms
  by (simp add: upsertCache_def schedulePersist_def handle_truthy_def timers_ok_def)

lemma upsert_all_pending:
  "timers_ok s \<Longrightarrow> persistTimeoutId s = Some h \<Longrightarrow>
   timers (upsert_all us s) = timers s \<and>
   persistTimeoutId (upsert_all us s) = Some h \<and>
   storageSets (upsert_all us s) = storageSets s"
proof (induction us arbitrary: s)
  case Nil
  then show ?case by simp
next
  case (Cons u us)
  obtain t k d where u: "u = (t, k, d)" by (cases u)
  have "timers_ok (upsertCache t k d s)"
    using Cons.prems(1) by (rule timers_ok_upsertCache)
  then show ?case
    using Cons.IH[of "upsertCache t k d s"] upsertCache_pending[OF Cons.prems, of t k d]
    by (simp add: u)
qed

lemma map_of_upsert_all:
  "list_all (\<lambda>(t, k, d). truthy k \<and> truthy d) us \<Longrightarrow>
   map_of (cache (upsert_all us s)) =
     map_of (cache s) ++ map_of (rev (map (\<lambda>(t, k, d). (k, \<lparr> data = d, timestamp = Some t \<rparr>)) us))"
proof (induction us arbitrary: s)
  case Nil
  then show ?case by simp
next
  case (Cons u us)
  obtain t k d where u: "u = (t, k, d)" by (cases u)
  have tr: "truthy k" "truthy d" and rest: "list_all (\<lambda>(t, k, d). truthy k \<and> truthy d) us"
    using Cons.prems by (simp_all add: u)
  have one: "map_of (cache (upsertCache t k d s)) =
             (map_of (cache s))(k \<mapsto> \<lparr> data = d, timestamp = Some t \<rparr>)"
    using tr by (simp add: upsertCache_effective cache_schedulePersist cache_set_def update_conv')
  let ?e = "\<lparr> data = d, timestamp = Some t \<rparr>"
  let ?M = "map_of (rev (map (\<lambda>(t, k, d). (k, \<lparr> data = d, timestamp = Some t \<rparr>)) us))"
  have "map_of (cache (upsert_all (u # us) s)) = (map_of (cache s))(k \<mapsto> ?e) ++ ?M"
    using Cons.IH[OF rest, of "upsertCache t k d s"] by (simp only: u upsert_all.simps one)
  also have "\<dots> = map_of (cache s) ++ ([k \<mapsto> ?e] ++ ?M)"
    by (rule ext) (simp add: map_add_def split: option.splits)
  also have "[k \<mapsto> ?e] ++ ?M =
    map_of (rev (map (\<lambda>(t, k, d). (k, \<lparr> data = d, timestamp = Some t \<rparr>)) (u # us)))"
    by (simp add: u)
  finally show ?case .
qed

lemma fire_timer_single:
  assumes "timers s = [(h, due)]"
  shows "(now < due \<longrightarrow> fire_timer now h s = None) \<and>
         (due \<le> now \<longrightarrow>
            fire_timer now h s =
              Some (persistCache (s\<lparr> timers := [] \<rparr>)))"
  using assms by (simp add: fire_timer_def)

lemma serialize_member:
  "(k, e) \<in> set m \<Longrightarrow> \<lparr> data = data e, timestamp = timestamp e, key = k \<rparr> \<in> set (serialize m)"
  by (force simp: serialize_def)

lemma upsert_all_window:
  assumes ok: "timers_ok s" and idle: "persistTimeoutId s = None"
    and tr: "list_all (\<lambda>(t, k, d). truthy k \<and> truthy d) ((t0, k0, d0) # us)"
  shows "timers (upsert_all ((t0, k0, d0) # us) s) = [(nextHandle s, t0 + 2000)]"
    and "persistTimeoutId (upsert_all ((t0, k0, d0) # us) s) = Some (nextHandle s)"
    and "storageSets (upsert_all ((t0, k0, d0) # us) s) = storageSets s"
proof -
  let ?s1 = "upsertCache t0 k0 d0 s"
  have tr0: "truthy k0" "truthy d0" using tr by simp_all
  note first = upsertCache_first[OF ok idle tr0, of t0]
  have ok1: "timers_ok ?s1" using ok by (rule timers_ok_upsertCache)
  have p1: "persistTimeoutId ?s1 = Some (nextHandle s)" using first by simp
  note rest = upsert_all_pending[OF ok1 p1, of us]
  show "timers (upsert_all ((t0, k0, d0) # us) s) = [(nextHandle s, t0 + 2000)]"
    using rest first by simp
  show "persistTimeoutId (upsert_all ((t0, k0, d0) # us) s) = Some (nextHandle s)"
    using rest by simp
  show "storageSets (upsert_all ((t0, k0, d0) # us) s) = storageSets s"
    using rest first by simp
qed

text \<open>
  Claim C7. In every state reached from the start at most one persist timer is pending.
  \<^verbatim>\<open>schedulePersist\<close> with a persist pending changes nothing, so it arms no timer. When
  no persist is pending and N upserts with truthy keys and data follow one another, the
  first at time \<open>t0\<close>: one timer is pending, due at \<open>t0 + 2000\<close>, nothing is written
  while they run, the timer cannot fire before \<open>t0 + 2000\<close>, and when it fires it
  makes one write, of the whole map, and leaves no timer behind. That snapshot holds, for
  every key upserted, the data and the time stamp of the last upsert of that key.
\<close>

theorem persist_coalescing:
  "(reachable es r \<longrightarrow> timers_ok r \<and> length (timers r) \<le> 1) \<and>
   (handle_truthy (persistTimeoutId r) \<longrightarrow> schedulePersist now r = r) \<and>
   (timers_ok s \<and> persistTimeoutId s = None \<and>
    list_all (\<lambda>(t, k, d). truthy k \<and> truthy d) ((t0, k0, d0) # us) \<longrightarrow>
      timers (upsert_all ((t0, k0, d0) # us) s) = [(nextHandle s, t0 + 2000)] \<and>
      storageSets (upsert_all ((t0, k0, d0) # us) s) = storageSets s \<and>
      (\<forall>now'. now' < t0 + 2000 \<longrightarrow>
         fire_timer now' (nextHandle s) (upsert_all ((t0, k0, d0) # us) s) = None) \<and>
      (\<forall>now'. t0 + 2000 \<le> now' \<longrightarrow>
         (\<exists>s''. fire_timer now' (nextHandle s) (upsert_all ((t0, k0, d0) # us) s) = Some s'' \<and>
            storageSets s'' =
              storageSets s @ [serialize (cache (upsert_all ((t0, k0, d0) # us) s))] \<and>
            timers s'' = [] \<and> persistTimeoutId s'' = None \<and>
            cache s'' = cache (upsert_all ((t0, k0, d0) # us) s))) \<and>
      (\<forall>k e. map_of (rev (map (\<lambda>(t, k, d). (k, \<lparr> data = d, timestamp = Some t \<rparr>))
                           ((t0, k0, d0) # us))) k = Some e \<longrightarrow>
         \<lparr> data = data e, timestamp = timestamp e, key = k \<rparr>
           \<in> set (serialize (cache (upsert_all ((t0, k0, d0) # us) s)))))"
proof -
  have inv: "reachable es r \<longrightarrow> timers_ok r \<and> length (timers r) \<le> 1"
  proof
    assume "reachable es r"
    then have ok: "timers_ok r" by (rule timers_ok_reachable)
    then have "length (map fst (timers r)) \<le> 1"
      by (auto simp: timers_ok_def split: option.splits)
    with ok show "timers_ok r \<and> length (timers r) \<le> 1" by simp
  qed
  have noop: "handle_truthy (persistTimeoutId r) \<longrightarrow> schedulePersist now r = r"
    by (simp add: schedulePersist_pending_noop)
  have window: "timers (upsert_all ((t0, k0, d0) # us) s) = [(nextHandle s, t0 + 2000)] \<and>
      storageSets (upsert_all ((t0, k0, d0) # us) s) = storageSets s \<and>
      (\<forall>now'. now' < t0 + 2000 \<longrightarrow>
         fire_timer now' (nextHandle s) (upsert_all ((t0, k0, d0) # us) s) = None) \<and>
      (\<forall>now'. t0 + 2000 \<le> now' \<longrightarrow>
         (\<exists>s''. fire_timer now' (nextHandle s) (upsert_all ((t0, k0, d0) # us) s) = Some s'' \<and>
            storageSets s'' =
              storageSets s @ [serialize (cache (upsert_all ((t0, k0, d0) # us) s))] \<and>
            timers s'' = [] \<and> persistTimeoutId s'' = None \<and>
            cache s'' = cache (upsert_all ((t0, k0, d0) # us) s))) \<and>
      (\<forall>k e. map_of (rev (map (\<lambda>(t, k, d). (k, \<lparr> data = d, timestamp = Some t \<rparr>))
                           ((t0, k0, d0) # us))) k = Some e \<longrightarrow>
         \<lparr> data = data e, timestamp = timestamp e, key = k \<rparr>
           \<in> set (serialize (cache (upsert_all ((t0, k0, d0) # us) s))))"
    if ok: "timers_ok s" and idle: "persistTimeoutId s = None"
      and tr: "list_all (\<lambda>(t, k, d). truthy k \<and> truthy d) ((t0, k0, d0) # us)"
  proof -
    let ?s' = "upsert_all ((t0, k0, d0) # us) s"
    note w = upsert_all_window[OF ok idle tr]
    note f = fire_timer_single[OF w(1)]
    have early: "\<forall>now'. now' < t0 + 2000 \<longrightarrow> fire_timer now' (nextHandle s) ?s' = None"
      using f by blast
    have late: "\<forall>now'. t0 + 2000 \<le> now' \<longrightarrow>
         (\<exists>s''. fire_timer now' (nextHandle s) ?s' = Some s'' \<and>
            storageSets s'' = storageSets s @ [serialize (cache ?s')] \<and>
            timers s'' = [] \<and> persistTimeoutId s'' = None \<and> cache s'' = cache ?s')"
    proof (intro allI impI)
      fix now' :: int
      assume "t0 + 2000 \<le> now'"
      then have "fire_timer now' (nextHandle s) ?s' = Some (persistCache (?s'\<lparr> timers := [] \<rparr>))"
        using f by blast
      then show "\<exists>s''. fire_timer now' (nextHandle s) ?s' = Some s'' \<and>
            storageSets s'' = storageSets s @ [serialize (cache ?s')] \<and>
            timers s'' = [] \<and> persistTimeoutId s'' = None \<and> cache s'' = cache ?s'"
        using w(3) by (simp add: persistCache_def)
    qed
    have snap: "\<forall>k e. map_of (rev (map (\<lambda>(t, k, d). (k, \<lparr> data = d, timestamp = Some t \<rparr>))
                           ((t0, k0, d0) # us))) k = Some e \<longrightarrow>
         \<lparr> data = data e, timestamp = timestamp e, key = k \<rparr> \<in> set (serialize (cache ?s'))"
    proof (intro allI impI)
      fix k e
      assume "map_of (rev (map (\<lambda>(t, k, d). (k, \<lparr> data = d, timestamp = Some t \<rparr>))
                           ((t0, k0, d0) # us))) k = Some e"
      then have "map_of (cache ?s') k = Some e"
        by (simp only: map_of_upsert_all[OF tr] map_add_Some_iff) simp
      then have "(k, e) \<in> set (cache ?s')" by (rule map_of_SomeD)
      then show "\<lparr> data = data e, timestamp = timestamp e, key = k \<rparr> \<in> set (serialize (cache ?s'))"
        by (rule serialize_member)
    qed
    from w(1) w(3) early late snap show ?thesis by blast
  qed
  from inv noop window show ?thesis by blast
qed

text \<open>
  From the start, \<^verbatim>\<open>"a"\<close> is upserted at 100, \<^verbatim>\<open>"b"\<close> at 600 and \<^verbatim>\<open>"a"\<close> again at 1900.
  One timer is due at 2100; it cannot fire at 2099, and at 2100 it writes one snapshot
  with the second payload of \<^verbatim>\<open>"a"\<close> and the payload of \<^verbatim>\<open>"b"\<close>.
  The state after the first two upserts is reached by a run, holds one timer, and
  \<^verbatim>\<open>schedulePersist\<close> leaves it as it is.
\<close>

theorem persist_coalescing_witness:
  "timers (upsert_all [(100, JStr ''a'', JNum 1), (600, JStr ''b'', JNum 2),
                       (1900, JStr ''a'', JNum 3)] initial) = [(1, 2100)] \<and>
   storageSets (upsert_all [(100, JStr ''a'', JNum 1), (600, JStr ''b'', JNum 2),
                       (1900, JStr ''a'', JNum 3)] initial) = [] \<and>
   fire_timer 2099 1 (upsert_all [(100, JStr ''a'', JNum 1), (600, JStr ''b'', JNum 2),
                       (1900, JStr ''a'', JNum 3)] initial) = None \<and>
   map_option storageSets
     (fire_timer 2100 1 (upsert_all [(100, JStr ''a'', JNum 1), (600, JStr ''b'', JNum 2),
                       (1900, JStr ''a'', JNum 3)] initial)) =
     Some [ [\<lparr> data = JNum 3, timestamp = Some 1900, key = JStr ''a'' \<rparr>,
            \<lparr> data = JNum 2, timestamp = Some 600, key = JStr ''b'' \<rparr>]] \<and>
   \<lparr> data = JNum 3, timestamp = Some 1900, key = JStr ''a'' \<rparr>
     \<in> set (serialize (cache (upsert_all [(100, JStr ''a'', JNum 1), (600, JStr ''b'', JNum 2),
                       (1900, JStr ''a'', JNum 3)] initial))) \<and>
   reachable [UpsertCache 100 (JStr ''a'') (JNum 1), UpsertCache 600 (JStr ''b'') (JNum 2)]
     (upsert_all [(100, JStr ''a'', JNum 1), (600, JStr ''b'', JNum 2)] initial) \<and>
   length (timers (upsert_all [(100, JStr ''a'', JNum 1), (600, JStr ''b'', JNum 2)] initial)) \<le> 1 \<and>
   schedulePersist 700 (upsert_all [(100, JStr ''a'', JNum 1), (600, JStr ''b'', JNum 2)] initial) =
     upsert_all [(100, JStr ''a'', JNum 1), (600, JStr ''b'', JNum 2)] initial"
proof -
  let ?R = "upsert_all [(100, JStr ''a'', JNum 1), (600, JStr ''b'', JNum 2)] initial"
  have run: "reachable [UpsertCache 100 (JStr ''a'') (JNum 1), UpsertCache 600 (JStr ''b'') (JNum 2)] ?R"
    by code_simp
  have pending: "handle_truthy (persistTimeoutId ?R)" by code_simp
  from persist_coalescing[where es = "[UpsertCache 100 (JStr ''a'') (JNum 1),
      UpsertCache 600 (JStr ''b'') (JNum 2)]" and r = ?R and now = 700] run pending
  have one: "length (timers ?R) \<le> 1 \<and> schedulePersist 700 ?R = ?R" by blast
  let ?us = "[(600, JStr ''b'', JNum 2), (1900, JStr ''a'', JNum 3)]"
  let ?S = "upsert_all ((100, JStr ''a'', JNum 1) # ?us) initial"
  have ok: "timers_ok initial" by (rule timers_ok_initial)
  have idle: "persistTimeoutId initial = None" and h: "nextHandle initial = 1"
    and none: "storageSets initial = []"
    by (simp_all add: initial_def)
  have tr: "list_all (\<lambda>(t, k, d). truthy k \<and> truthy d) ((100, JStr ''a'', JNum 1) # ?us)"
    by simp
  have snap: "serialize (cache ?S) =
    [\<lparr> data = JNum 3, timestamp = Some 1900, key = JStr ''a'' \<rparr>,
     \<lparr> data = JNum 2, timestamp = Some 600, key = JStr ''b'' \<rparr>]"
    by code_simp
  have last: "map_of (rev (map (\<lambda>(t, k, d). (k, \<lparr> data = d, timestamp = Some t \<rparr>))
       ((100, JStr ''a'', JNum 1) # ?us))) (JStr ''a'') = Some \<lparr> data = JNum 3, timestamp = Some 1900 \<rparr>"
    by simp
  note c = persist_coalescing[where s = initial and ?t0.0 = 100 and ?k0.0 = "JStr ''a''"
      and ?d0.0 = "JNum 1" and us = ?us, THEN conjunct2, THEN conjunct2, THEN mp,
      OF conjI[OF ok conjI[OF idle tr]], unfolded h none]
  note c3 = c[THEN conjunct2, THEN conjunct2, THEN conjunct1, rule_format, of 2099]
  note c4 = c[THEN conjunct2, THEN conjunct2, THEN conjunct2, THEN conjunct1, rule_format, of 2100]
  note c5 = c[THEN conjunct2, THEN conjunct2, THEN conjunct2, THEN conjunct2, rule_format, OF last]
  have w: "timers ?S = [(1, 2100)]" "storageSets ?S = []"
    using c by (simp_all del: upsert_all.simps)
  have early: "fire_timer 2099 1 ?S = None"
    using c3 by (simp del: upsert_all.simps)
  have "\<exists>s''. fire_timer 2100 1 ?S = Some s'' \<and> storageSets s'' = [] @ [serialize (cache ?S)]"
    using c4 by (simp del: upsert_all.simps, blast)
  then have late: "map_option storageSets (fire_timer 2100 1 ?S) = Some [serialize (cache ?S)]"
    by auto
  have mem: "\<lparr> data = JNum 3, timestamp = Some 1900, key = JStr ''a'' \<rparr> \<in> set (serialize (cache ?S))"
    using c5 by (simp del: upsert_all.simps)
  from w early late mem have "timers ?S = [(1, 2100)] \<and> storageSets ?S = [] \<and>
    fire_timer 2099 1 ?S = None \<and>
    map_option storageSets (fire_timer 2100 1 ?S) =
      Some [ [\<lparr> data = JNum 3, timestamp = Some 1900, key = JStr ''a'' \<rparr>,
             \<lparr> data = JNum 2, timestamp = Some 600, key = JStr ''b'' \<rparr>]] \<and>
    \<lparr> data = JNum 3, timestamp = Some 1900, key = JStr ''a'' \<rparr> \<in> set (serialize (cache ?S))"
    by (simp only: snap)
  with run one show ?thesis by blast
qed

section \<open>Hydration happens once\<close>

lemma load_fields_schedulePersist:
  "cacheLoadPromise (schedulePersist now s) = cacheLoadPromise s \<and>
   storageGets (schedulePersist now s) = storageGets s \<and>
   promisesCreated (schedulePersist now s) = promisesCreated s"
  by (simp add: schedulePersist_def)

lemma load_fields_prune:
  "cacheLoadPromise (pruneExpiredEntries now s) = cacheLoadPromise s \<and>
   storageGets (pruneExpiredEntries now s) = storageGets s \<and>
   promisesCreated (pruneExpiredEntries now s) = promisesCreated s"
  by (simp add: pruneExpiredEntries_def Let_def load_fields_schedulePersist)

lemma load_fields_step:
  assumes "ev \<noteq> EnsureCacheLoaded" "step ev s = Some s'"
  shows "cacheLoadPromise s' = cacheLoadPromise s \<and> storageGets s' = storageGets s \<and>
         promisesCreated s' = promisesCreated s"
proof (cases ev)
  case EnsureCacheLoaded
  then show ?thesis using assms by simp
next
  case (StorageGetCallback now now' st)
  then show ?thesis using assms
    by (auto simp: storage_get_callback_def Let_def load_fields_prune split: if_splits)
next
  case (PruneExpiredEntries now)
  then show ?thesis using assms by (auto simp: load_fields_prune)
next
  case (CacheLookup now k)
  then show ?thesis using assms
    by (auto simp: cacheLookup_def Let_def load_fields_schedulePersist split: option.splits)
next
  case (UpsertCache now k d)
  then show ?thesis using assms by (auto simp: upsertCache_def load_fields_schedulePersist)
next
  case (TimerFires now h)
  then show ?thesis using assms
    by (auto simp: fire_timer_def persistCache_def split: option.splits if_splits)
qed

lemma loaded_step:
  assumes "cacheLoadPromise s = Some 0 \<and> storageGets s = 1 \<and> promisesCreated s = 1"
    and "step ev s = Some s'"
  shows "cacheLoadPromise s' = Some 0 \<and> storageGets s' = 1 \<and> promisesCreated s' = 1"
proof (cases "ev = EnsureCacheLoaded")
  case True
  then show ?thesis using assms by (auto simp: ensureCacheLoaded_def)
next
  case False
  then show ?thesis using load_fields_step[OF False assms(2)] assms(1) by simp
qed

lemma loaded_run:
  "cacheLoadPromise s = Some 0 \<and> storageGets s = 1 \<and> promisesCreated s = 1 \<Longrightarrow>
   run es s = Some s' \<Longrightarrow>
   cacheLoadPromise s' = Some 0 \<and> storageGets s' = 1 \<and> promisesCreated s' = 1"
  by (rule run_invariant[where
        I = "\<lambda>s. cacheLoadPromise s = Some 0 \<and> storageGets s = 1 \<and> promisesCreated s = 1",
        OF loaded_step])

lemma unloaded_run:
  "cacheLoadPromise s = None \<and> storageGets s = 0 \<and> promisesCreated s = 0 \<Longrightarrow>
   run es s = Some s' \<Longrightarrow>
   (if EnsureCacheLoaded \<in> set es
    then cacheLoadPromise s' = Some 0 \<and> storageGets s' = 1 \<and> promisesCreated s' = 1
    else cacheLoadPromise s' = None \<and> storageGets s' = 0 \<and> promisesCreated s' = 0)"
proof (induction es arbitrary: s)
  case Nil
  then show ?case by simp
next
  case (Cons ev es)
  from Cons.prems(2) obtain s1 where s1: "step ev s = Some s1" and rest: "run es s1 = Some s'"
    by (auto split: option.splits)
  show ?case
  proof (cases "ev = EnsureCacheLoaded")
    case True
    then have "cacheLoadPromise s1 = Some 0 \<and> storageGets s1 = 1 \<and> promisesCreated s1 = 1"
      using s1 Cons.prems(1) by (auto simp: ensureCacheLoaded_def)
    from loaded_run[OF this rest] True show ?thesis by simp
  next
    case False
    then have "cacheLoadPromise s1 = None \<and> storageGets s1 = 0 \<and> promisesCreated s1 = 0"
      using load_fields_step[OF False s1] Cons.prems(1) by simp
    from Cons.IH[OF this rest] False show ?thesis by auto
  qed
qed

text \<open>
  Claim C4. In every state reached from the start, \<^verbatim>\<open>chrome.storage.local.get\<close> has been
  called once if \<^verbatim>\<open>ensureCacheLoaded\<close> has been called at all, and never otherwise;
  whether the callback has run does not matter. The first call, with no promise yet,
  makes one, stores it and reads storage once. A call with a promise stored returns that
  promise and changes nothing. So every call of every run returns the promise of the
  first call.
\<close>

theorem hydration_once:
  "(reachable es s \<longrightarrow>
      storageGets s = (if EnsureCacheLoaded \<in> set es then 1 else 0) \<and>
      fst (ensureCacheLoaded s) = 0 \<and>
      storageGets (snd (ensureCacheLoaded s)) = 1) \<and>
   (cacheLoadPromise r = None \<longrightarrow>
      cacheLoadPromise (snd (ensureCacheLoaded r)) = Some (fst (ensureCacheLoaded r)) \<and>
      storageGets (snd (ensureCacheLoaded r)) = storageGets r + 1) \<and>
   (cacheLoadPromise r = Some p \<longrightarrow> ensureCacheLoaded r = (p, r))"
proof -
  have first: "cacheLoadPromise r = None \<longrightarrow>
      cacheLoadPromise (snd (ensureCacheLoaded r)) = Some (fst (ensureCacheLoaded r)) \<and>
      storageGets (snd (ensureCacheLoaded r)) = storageGets r + 1"
    by (simp add: ensureCacheLoaded_def)
  have again: "cacheLoadPromise r = Some p \<longrightarrow> ensureCacheLoaded r = (p, r)"
    by (simp add: ensureCacheLoaded_def)
  have runs: "storageGets s = (if EnsureCacheLoaded \<in> set es then 1 else 0) \<and>
      fst (ensureCacheLoaded s) = 0 \<and> storageGets (snd (ensureCacheLoaded s)) = 1"
    if "reachable es s"
  proof -
    have "cacheLoadPromise initial = None \<and> storageGets initial = 0 \<and> promisesCreated initial = 0"
      by (simp add: initial_def)
    from unloaded_run[OF this] that
    have "if EnsureCacheLoaded \<in> set es
      then cacheLoadPromise s = Some 0 \<and> storageGets s = 1 \<and> promisesCreated s = 1
      else cacheLoadPromise s = None \<and> storageGets s = 0 \<and> promisesCreated s = 0"
      by (simp add: reachable_def)
    then show ?thesis by (auto simp: ensureCacheLoaded_def split: if_splits)
  qed
  from first again runs show ?thesis by blast
qed

text \<open>
  Three calls, the storage callback between the second and the third: one read, and a
  fourth call would return the same promise.
\<close>

theorem hydration_once_witness:
  "reachable [EnsureCacheLoaded, EnsureCacheLoaded, StorageGetCallback 5 5 None, EnsureCacheLoaded]
     \<lparr> cache = [], cacheLoadPromise = Some 0, persistTimeoutId = None, timers = [],
       nextHandle = 1, promisesCreated = 1, storageGets = 1, getsPending = 0,
       storageSets = [], promiseResolved = True, fetches = [] \<rparr> \<and>
   storageGets
     \<lparr> cache = [], cacheLoadPromise = Some 0, persistTimeoutId = None, timers = [],
       nextHandle = 1, promisesCreated = 1, storageGets = 1, getsPending = 0,
       storageSets = [], promiseResolved = True, fetches = [] \<rparr> = 1 \<and>
   fst (ensureCacheLoaded
     \<lparr> cache = [], cacheLoadPromise = Some 0, persistTimeoutId = None, timers = [],
       nextHandle = 1, promisesCreated = 1, storageGets = 1, getsPending = 0,
       storageSets = [], promiseResolved = True, fetches = [] \<rparr>) = 0"
proof -
  let ?es = "[EnsureCacheLoaded, EnsureCacheLoaded, StorageGetCallback 5 5 None, EnsureCacheLoaded]"
  let ?S = "\<lparr> cache = [], cacheLoadPromise = Some 0, persistTimeoutId = None, timers = [],
       nextHandle = 1, promisesCreated = 1, storageGets = 1, getsPending = 0,
       storageSets = [], promiseResolved = True, fetches = [] \<rparr>"
  have r: "reachable ?es ?S" by code_simp
  from hydration_once[where es = ?es and s = ?S] r
  have "storageGets ?S = (if EnsureCacheLoaded \<in> set ?es then 1 else 0) \<and>
        fst (ensureCacheLoaded ?S) = 0"
    by blast
  then have "storageGets ?S = 1 \<and> fst (ensureCacheLoaded ?S) = 0" by simp
  with r show ?thesis by blast
qed

section \<open>The age of a cached entry\<close>

text \<open>
  Claim C5 fails on an entry that hydration took from storage with a time stamp ahead of
  the clock: stored with time stamp 5000 and hydrated at 1000, its age then is -4000,
  which is not above the TTL, so it is admitted; a lookup at 2000 returns it with the age
  -3000.
\<close>

theorem lookup_age_counterexample:
  "reachable
     [EnsureCacheLoaded,
      StorageGetCallback 1000 1000
        (Some [Some \<lparr> data = JNum 1, timestamp = Some 5000, key = JStr ''k'' \<rparr>])]
     \<lparr> cache = [(JStr ''k'', \<lparr> data = JNum 1, timestamp = Some 5000 \<rparr>)],
       cacheLoadPromise = Some 0, persistTimeoutId = None, timers = [],
       nextHandle = 1, promisesCreated = 1, storageGets = 1, getsPending = 0,
       storageSets = [], promiseResolved = True, fetches = [] \<rparr> \<and>
   fst (cacheLookup 2000 (JStr ''k'')
     \<lparr> cache = [(JStr ''k'', \<lparr> data = JNum 1, timestamp = Some 5000 \<rparr>)],
       cacheLoadPromise = Some 0, persistTimeoutId = None, timers = [],
       nextHandle = 1, promisesCreated = 1, storageGets = 1, getsPending = 0,
       storageSets = [], promiseResolved = True, fetches = [] \<rparr>) = Some (JNum 1, - 3000)"
  by code_simp

text \<open>
  Claim C5, amended. A lookup that returns an entry returns, as its age, the clock minus
  the entry's time stamp (0 when it has none), and that age is at most 3600000. It is
  not negative exactly when the time stamp is not ahead of the clock. Hydration admits a
  stored entry with a truthy key and truthy data whose time stamp is ahead of the clock,
  time stamp unchanged.
\<close>

theorem lookup_age:
  "(cacheLookup now k s = (Some (d, age), s') \<longrightarrow>
      (\<exists>e. cache_get (cache s) k = Some e \<and> d = data e \<and>
           age = now - timestamp_or_0 (timestamp e) \<and> age \<le> 3600000 \<and>
           (0 \<le> age \<longleftrightarrow> timestamp_or_0 (timestamp e) \<le> now))) \<and>
   (truthy (key x) \<and> truthy (data x) \<and> timestamp x = Some t \<and> now < t \<longrightarrow>
      cache_get (admit now (Some x) m) (key x) = Some \<lparr> data = data x, timestamp = Some t \<rparr>)"
proof -
  have a: "cacheLookup now k s = (Some (d, age), s') \<longrightarrow>
      (\<exists>e. cache_get (cache s) k = Some e \<and> d = data e \<and>
           age = now - timestamp_or_0 (timestamp e) \<and> age \<le> 3600000 \<and>
           (0 \<le> age \<longleftrightarrow> timestamp_or_0 (timestamp e) \<le> now))"
    by (auto simp: cacheLookup_def Let_def CACHE_TTL_MS_def split: if_splits option.splits)
  have b: "truthy (key x) \<and> truthy (data x) \<and> timestamp x = Some t \<and> now < t \<longrightarrow>
      cache_get (admit now (Some x) m) (key x) = Some \<lparr> data = data x, timestamp = Some t \<rparr>"
    by (simp add: admit_def Let_def timestamp_or_0_def CACHE_TTL_MS_def cache_get_def
        cache_set_def update_conv')
  from a b show ?thesis by blast
qed

text \<open>
  An entry stored at 100 and looked up at 250 has the age 150; an entry stamped 5000 is
  admitted at 1000.
\<close>

theorem lookup_age_witness:
  "cache_get (cache (upsertCache 100 (JStr ''k'') (JNum 1) initial)) (JStr ''k'') =
     Some \<lparr> data = JNum 1, timestamp = Some 100 \<rparr> \<and>
   cacheLookup 250 (JStr ''k'') (upsertCache 100 (JStr ''k'') (JNum 1) initial) =
     (Some (JNum 1, 150), upsertCache 100 (JStr ''k'') (JNum 1) initial) \<and>
   (150 :: int) = 250 - timestamp_or_0 (Some 100) \<and>
   cache_get (admit 1000 (Some \<lparr> data = JNum 1, timestamp = Some 5000, key = JStr ''k'' \<rparr>) [])
     (JStr ''k'') = Some \<lparr> data = JNum 1, timestamp = Some 5000 \<rparr>"
proof -
  let ?S = "upsertCache 100 (JStr ''k'') (JNum 1) initial"
  let ?x = "\<lparr> data = JNum 1, timestamp = Some 5000, key = JStr ''k'' \<rparr>"
  have l: "cacheLookup 250 (JStr ''k'') ?S = (Some (JNum 1, 150), ?S)" by code_simp
  have g: "cache_get (cache ?S) (JStr ''k'') = Some \<lparr> data = JNum 1, timestamp = Some 100 \<rparr>"
    by code_simp
  from lookup_age[where now = 250 and k = "JStr ''k''" and s = ?S and d = "JNum 1"
      and age = 150 and s' = ?S] l g
  have "(150 :: int) = 250 - timestamp_or_0 (Some 100)" by auto
  moreover from lookup_age[where x = ?x and t = 5000 and now = 1000 and m = "[]"]
  have "cache_get (admit 1000 (Some ?x) []) (JStr ''k'') = Some \<lparr> data = JNum 1, timestamp = Some 5000 \<rparr>"
    by simp
  ultimately show ?thesis using l g by blast
qed

section \<open>The fetch orchestrator\<close>

lemma handle_lookup_miss:
  assumes "handle_lookup now now' parsed r s = (Await k, s1)"
  shows "k = deriveCacheKey parsed r"
    and "fst (cacheLookup now' (deriveCacheKey parsed r) (pruneExpiredEntries now s)) = None"
    and "s1 = (snd (cacheLookup now' (deriveCacheKey parsed r) (pruneExpiredEntries now s)))
               \<lparr> fetches := fetches (snd (cacheLookup now' (deriveCacheKey parsed r)
                    (pruneExpiredEntries now s))) @ [apiUrl r] \<rparr>"
  using assms
  by (auto simp: handle_lookup_def Let_def split: prod.splits option.splits)

lemma upsertCache_then_lookup:
  assumes "truthy k" "truthy d" "t - now \<le> 3600000"
  shows "cacheLookup t k (upsertCache now k d s) = (Some (d, t - now), upsertCache now k d s)"
proof -
  have "cache_get (cache (upsertCache now k d s)) k = Some \<lparr> data = d, timestamp = Some now \<rparr>"
    using assms(1,2)
    by (simp add: upsertCache_effective cache_schedulePersist cache_get_def cache_set_def update_conv')
  then show ?thesis using assms
    by (simp add: cacheLookup_def Let_def timestamp_or_0_def CACHE_TTL_MS_def)
qed

text \<open>
  Claim C2 fails when the body parses to a falsy payload. A request with the cache key
  \<^verbatim>\<open>"k"\<close> misses, the response has status 200 and the body \<^verbatim>\<open>null\<close>: the reply is
  \<^verbatim>\<open>{ data: null, cacheHit: false, cacheAge: 0 }\<close>, the map is as empty as before,
  and a lookup of \<^verbatim>\<open>"k"\<close> right after finds nothing.
\<close>

theorem fetch_success_upsert_counterexample:
  "handle_request 10 10 20 (Query [])
     \<lparr> action = ''fetchTikTokData'', apiUrl = ''https://api.example/x'', cacheKey = JStr ''k'' \<rparr>
     (Response 200) (Some JNull) initial =
     (DataReply JNull False 0, initial\<lparr> fetches := [''https://api.example/x''] \<rparr>) \<and>
   cacheLookup 30 (JStr ''k'') (initial\<lparr> fetches := [''https://api.example/x''] \<rparr>) =
     (None, initial\<lparr> fetches := [''https://api.example/x''] \<rparr>)"
  by code_simp

text \<open>
  Claim C2, amended. A request that misses, gets an OK response and a body that parses
  replies \<^verbatim>\<open>{ data, cacheHit: false, cacheAge: 0 }\<close> after one call of \<^verbatim>\<open>upsertCache\<close>
  with the derived key and the payload; the same holds of the last part alone, whatever
  ran before it. When key and payload are truthy, a lookup of the key after that call,
  at a time no more than 3600000 past it, returns the payload. When the payload (or the
  key) is falsy, the call changes nothing.
\<close>

theorem fetch_success_upsert:
  "(handle_lookup now now' parsed r s = (Await k, s1) \<and> response_ok status \<longrightarrow>
      k = deriveCacheKey parsed r \<and>
      handle_request now now' now'' parsed r (Response status) (Some payload) s =
        (DataReply payload False 0, upsertCache now'' k payload s1)) \<and>
   handle_json now'' k (Some payload) s1 = (Resolved payload False 0, upsertCache now'' k payload s1) \<and>
   (truthy k \<and> truthy payload \<longrightarrow>
      (\<forall>t. t - now'' \<le> 3600000 \<longrightarrow>
         cacheLookup t k (upsertCache now'' k payload s1) =
           (Some (payload, t - now''), upsertCache now'' k payload s1))) \<and>
   (\<not> (truthy k \<and> truthy payload) \<longrightarrow> upsertCache now'' k payload s1 = s1)"
proof -
  have whole: "k = deriveCacheKey parsed r \<and>
      handle_request now now' now'' parsed r (Response status) (Some payload) s =
        (DataReply payload False 0, upsertCache now'' k payload s1)"
    if "handle_lookup now now' parsed r s = (Await k, s1)" and "response_ok status"
    using that handle_lookup_miss(1)[OF that(1)]
    by (simp add: handle_request_def handle_response_def handle_json_def listener_reply_def)
  have last: "handle_json now'' k (Some payload) s1 =
      (Resolved payload False 0, upsertCache now'' k payload s1)"
    by (simp add: handle_json_def)
  have noop: "\<not> (truthy k \<and> truthy payload) \<longrightarrow> upsertCache now'' k payload s1 = s1"
    by (simp add: upsertCache_def)
  from whole last noop upsertCache_then_lookup show ?thesis by blast
qed

text \<open>
  The same request with the body \<^verbatim>\<open>{"v": 1}\<close>: the payload is replied and stored, and a
  lookup an hour after the upsert returns it.
\<close>

theorem fetch_success_upsert_witness:
  "handle_lookup 10 10 (Query [])
     \<lparr> action = ''fetchTikTokData'', apiUrl = ''https://api.example/x'', cacheKey = JStr ''k'' \<rparr>
     initial = (Await (JStr ''k''), initial\<lparr> fetches := [''https://api.example/x''] \<rparr>) \<and>
   response_ok 200 \<and>
   handle_request 10 10 20 (Query [])
     \<lparr> action = ''fetchTikTokData'', apiUrl = ''https://api.example/x'', cacheKey = JStr ''k'' \<rparr>
     (Response 200) (Some (JObj [(''v'', JNum 1)])) initial =
     (DataReply (JObj [(''v'', JNum 1)]) False 0,
      upsertCache 20 (JStr ''k'') (JObj [(''v'', JNum 1)])
        (initial\<lparr> fetches := [''https://api.example/x''] \<rparr>)) \<and>
   fst (cacheLookup 3600020 (JStr ''k'')
      (upsertCache 20 (JStr ''k'') (JObj [(''v'', JNum 1)])
        (initial\<lparr> fetches := [''https://api.example/x''] \<rparr>))) =
     Some (JObj [(''v'', JNum 1)], 3600000)"
proof -
  let ?r = "\<lparr> action = ''fetchTikTokData'', apiUrl = ''https://api.example/x'',
             cacheKey = JStr ''k'' \<rparr>"
  let ?s1 = "initial\<lparr> fetches := [''https://api.example/x''] \<rparr>"
  let ?p = "JObj [(''v'', JNum 1)]"
  have miss: "handle_lookup 10 10 (Query []) ?r initial = (Await (JStr ''k''), ?s1)" by code_simp
  have ok: "response_ok 200" by (simp add: response_ok_def)
  have tr: "truthy (JStr ''k'') \<and> truthy ?p" by simp
  note c = fetch_success_upsert[where now = 10 and now' = 10 and now'' = 20 and parsed = "Query []"
      and r = ?r
      and s = initial and k = "JStr ''k''" and ?s1.0 = ?s1 and status = 200 and payload = ?p]
  from c miss ok
  have whole: "handle_request 10 10 20 (Query []) ?r (Response 200) (Some ?p) initial =
      (DataReply ?p False 0, upsertCache 20 (JStr ''k'') ?p ?s1)"
    by blast
  from c tr
  have "\<forall>t. t - 20 \<le> 3600000 \<longrightarrow>
      cacheLookup t (JStr ''k'') (upsertCache 20 (JStr ''k'') ?p ?s1) =
        (Some (?p, t - 20), upsertCache 20 (JStr ''k'') ?p ?s1)"
    by blast
  from this[rule_format, of 3600020]
  have "cacheLookup 3600020 (JStr ''k'') (upsertCache 20 (JStr ''k'') ?p ?s1) =
      (Some (?p, 3600020 - 20), upsertCache 20 (JStr ''k'') ?p ?s1)"
    by simp
  then have "fst (cacheLookup 3600020 (JStr ''k'') (upsertCache 20 (JStr ''k'') ?p ?s1)) =
      Some (?p, 3600000)"
    by simp
  with miss ok whole show ?thesis by blast
qed

lemma map_of_filter_distinct:
  assumes "distinct (map fst m)" "map_of (filter P m) k = Some e"
  shows "map_of m k = Some e"
proof -
  have "(k, e) \<in> set (filter P m)" using assms(2) by (rule map_of_SomeD)
  then have "(k, e) \<in> set m" by simp
  with assms(1) show ?thesis by simp
qed

lemma prune_inserts_nothing:
  "keys_distinct s \<Longrightarrow> cache_get (cache (pruneExpiredEntries now s)) k = Some e \<Longrightarrow>
   cache_get (cache s) k = Some e"
  unfolding keys_distinct_def cache_get_def cache_prune
  by (rule map_of_filter_distinct)

lemma cacheLookup_inserts_nothing:
  "cache_get (cache (snd (cacheLookup now k s))) k' = Some e \<Longrightarrow> cache_get (cache s) k' = Some e"
  by (auto simp: cacheLookup_def Let_def cache_schedulePersist cache_get_def cache_delete_def
      delete_conv' split: option.splits if_splits)

lemma cacheLookup_miss_unmapped:
  "truthy k \<Longrightarrow> fst (cacheLookup now k s) = None \<Longrightarrow>
   cache_get (cache (snd (cacheLookup now k s))) k = None"
  by (auto simp: cacheLookup_def Let_def cache_schedulePersist cache_get_def cache_delete_def
      delete_conv' split: option.splits if_splits)

text \<open>
  Claim C6. On a response whose status is not from 200 to 299 the request settles at
  once with the error \<^verbatim>\<open>HTTP error: \<close> followed by the status in decimal, and the state
  is the one it found. For a whole request that missed and got such a response: the
  reply is \<^verbatim>\<open>{ error: "HTTP error: <status>" }\<close>, \<^verbatim>\<open>fetch\<close> was called once, with the
  request's URL, every entry of the map afterwards was there before with the same data
  and time stamp (the prune and the lookup before the fetch can only have deleted
  expired entries), and a truthy derived key is not mapped afterwards.
\<close>

theorem http_error_reply:
  "\<not> response_ok status \<longrightarrow>
     handle_response (Response status) s =
       (Settled (Rejected (''HTTP error: '' @ decimal status)), s) \<and>
     listener_reply (Rejected (''HTTP error: '' @ decimal status)) =
       ErrorReply (''HTTP error: '' @ decimal status) \<and>
     (handle_lookup now now' parsed r s0 = (Await k, s1) \<longrightarrow>
        handle_request now now' now'' parsed r (Response status) body s0 =
          (ErrorReply (''HTTP error: '' @ decimal status), s1) \<and>
        fetches s1 = fetches s0 @ [apiUrl r] \<and>
        (keys_distinct s0 \<longrightarrow>
           (\<forall>k' e. cache_get (cache s1) k' = Some e \<longrightarrow> cache_get (cache s0) k' = Some e)) \<and>
        (truthy k \<longrightarrow> cache_get (cache s1) k = None))"
proof
  assume bad: "\<not> response_ok status"
  let ?msg = "''HTTP error: '' @ decimal status"
  have resp: "handle_response (Response status) s = (Settled (Rejected ?msg), s)" for s
    using bad by (simp add: handle_response_def)
  have rep: "listener_reply (Rejected ?msg) = ErrorReply ?msg"
    by (simp add: listener_reply_def)
  have whole: "handle_request now now' now'' parsed r (Response status) body s0 = (ErrorReply ?msg, s1) \<and>
        fetches s1 = fetches s0 @ [apiUrl r] \<and>
        (keys_distinct s0 \<longrightarrow>
           (\<forall>k' e. cache_get (cache s1) k' = Some e \<longrightarrow> cache_get (cache s0) k' = Some e)) \<and>
        (truthy k \<longrightarrow> cache_get (cache s1) k = None)"
    if miss: "handle_lookup now now' parsed r s0 = (Await k, s1)"
  proof -
    let ?p = "pruneExpiredEntries now s0"
    let ?l = "cacheLookup now' (deriveCacheKey parsed r) ?p"
    note m = handle_lookup_miss[OF miss]
    have c1: "cache s1 = cache (snd ?l)" by (simp add: m(3))
    have f0: "fetches (snd ?l) = fetches s0"
      by (simp add: cacheLookup_def pruneExpiredEntries_def schedulePersist_def Let_def
          split: option.splits)
    have f: "fetches s1 = fetches s0 @ [apiUrl r]" by (simp add: m(3) f0)
    have reply: "handle_request now now' now'' parsed r (Response status) body s0 = (ErrorReply ?msg, s1)"
      using miss by (simp add: handle_request_def resp listener_reply_def)
    have old: "cache_get (cache s0) k' = Some e"
      if "keys_distinct s0" "cache_get (cache s1) k' = Some e" for k' e
      using that cacheLookup_inserts_nothing[of now' "deriveCacheKey parsed r" ?p k' e]
        prune_inserts_nothing[of s0 now k' e]
      by (simp add: c1)
    have gone: "cache_get (cache s1) k = None" if "truthy k"
      using that cacheLookup_miss_unmapped[of "deriveCacheKey parsed r" now' ?p] m(1) m(2)
      by (simp add: c1)
    from reply f old gone show ?thesis by blast
  qed
  from resp rep whole
  show "handle_response (Response status) s = (Settled (Rejected ?msg), s) \<and>
     listener_reply (Rejected ?msg) = ErrorReply ?msg \<and>
     (handle_lookup now now' parsed r s0 = (Await k, s1) \<longrightarrow>
        handle_request now now' now'' parsed r (Response status) body s0 = (ErrorReply ?msg, s1) \<and>
        fetches s1 = fetches s0 @ [apiUrl r] \<and>
        (keys_distinct s0 \<longrightarrow>
           (\<forall>k' e. cache_get (cache s1) k' = Some e \<longrightarrow> cache_get (cache s0) k' = Some e)) \<and>
        (truthy k \<longrightarrow> cache_get (cache s1) k = None))"
    by blast
qed

text \<open>
  The map holds \<^verbatim>\<open>"j"\<close>; a request for \<^verbatim>\<open>"k"\<close> misses and the endpoint answers 404. The
  reply is \<^verbatim>\<open>HTTP error: 404\<close>, one fetch was made, \<^verbatim>\<open>"k"\<close> is not mapped and \<^verbatim>\<open>"j"\<close>
  is as it was.
\<close>

theorem http_error_reply_witness:
  "\<not> response_ok 404 \<and>
   handle_lookup 50 50 (Query [])
     \<lparr> action = ''fetchTikTokData'', apiUrl = ''https://api.example/x'', cacheKey = JStr ''k'' \<rparr>
     (upsertCache 10 (JStr ''j'') (JNum 1) initial) =
     (Await (JStr ''k''),
      (upsertCache 10 (JStr ''j'') (JNum 1) initial)\<lparr> fetches := [''https://api.example/x''] \<rparr>) \<and>
   handle_request 50 50 60 (Query [])
     \<lparr> action = ''fetchTikTokData'', apiUrl = ''https://api.example/x'', cacheKey = JStr ''k'' \<rparr>
     (Response 404) None (upsertCache 10 (JStr ''j'') (JNum 1) initial) =
     (ErrorReply ''HTTP error: 404'',
      (upsertCache 10 (JStr ''j'') (JNum 1) initial)\<lparr> fetches := [''https://api.example/x''] \<rparr>) \<and>
   cache_get (cache ((upsertCache 10 (JStr ''j'') (JNum 1) initial)
      \<lparr> fetches := [''https://api.example/x''] \<rparr>)) (JStr ''k'') = None \<and>
   cache_get (cache ((upsertCache 10 (JStr ''j'') (JNum 1) initial)
      \<lparr> fetches := [''https://api.example/x''] \<rparr>)) (JStr ''j'') =
     Some \<lparr> data = JNum 1, timestamp = Some 10 \<rparr>"
proof -
  let ?r = "\<lparr> action = ''fetchTikTokData'', apiUrl = ''https://api.example/x'',
             cacheKey = JStr ''k'' \<rparr>"
  let ?s0 = "upsertCache 10 (JStr ''j'') (JNum 1) initial"
  let ?s1 = "?s0\<lparr> fetches := [''https://api.example/x''] \<rparr>"
  have bad: "\<not> response_ok 404" by (simp add: response_ok_def)
  have miss: "handle_lookup 50 50 (Query []) ?r ?s0 = (Await (JStr ''k''), ?s1)" by code_simp
  have dec: "decimal 404 = ''404''" by code_simp
  have j: "cache_get (cache ?s1) (JStr ''j'') = Some \<lparr> data = JNum 1, timestamp = Some 10 \<rparr>"
    by code_simp
  note c = http_error_reply[where status = 404 and now = 50 and now' = 50 and now'' = 60
      and parsed = "Query []"
      and r = ?r and ?s0.0 = ?s0 and k = "JStr ''k''" and ?s1.0 = ?s1 and body = None,
      THEN mp, OF bad, THEN conjunct2, THEN conjunct2, THEN mp, OF miss]
  have reply: "handle_request 50 50 60 (Query []) ?r (Response 404) None ?s0 = (ErrorReply ''HTTP error: 404'', ?s1)"
    using c[THEN conjunct1] by (simp only: dec) simp
  have gone: "cache_get (cache ?s1) (JStr ''k'') = None"
    using c[THEN conjunct2, THEN conjunct2, THEN conjunct2] by simp
  from bad miss reply gone j show ?thesis by blast
qed

section \<open>The logger's gates\<close>

lemma resolveLevel_level_name: "resolveLevel g (Some (level_name l)) = l"
  by (cases l) (simp_all add: resolveLevel_def known_level_def to_lower_def)

lemma dropWhile_fixed: "xs = [] \<or> \<not> P (hd xs) \<Longrightarrow> dropWhile P xs = xs"
  by (cases xs) auto

lemma trim_idem: "trim (trim s) = trim s"
proof -
  define t where "t = dropWhile white_space s"
  define u where "u = dropWhile white_space (rev t)"
  have tu: "trim s = rev u" by (simp add: trim_def t_def u_def)
  have u_fix: "dropWhile white_space u = u" by (simp add: u_def)
  have front: "dropWhile white_space (rev u) = rev u"
  proof (cases "rev u = []")
    case True
    then show ?thesis by simp
  next
    case False
    then have "u \<noteq> []" by simp
    have "rev t = takeWhile white_space (rev t) @ u"
      by (simp add: u_def)
    then have "t = rev u @ rev (takeWhile white_space (rev t))"
      by (metis rev_append rev_rev_ident)
    then have "hd t = hd (rev u)" using False by (metis hd_append2)
    moreover have "t \<noteq> []" using \<open>u \<noteq> []\<close> by (auto simp: u_def)
    then have "\<not> white_space (hd t)" unfolding t_def by (rule hd_dropWhile)
    ultimately show ?thesis using False by (intro dropWhile_fixed) simp
  qed
  show ?thesis
    unfolding trim_def[of "trim s"] by (simp add: tu front u_fix)
qed

lemma sanitizeScope_idem:
  "(\<And>x. a \<noteq> ScopeOther x) \<Longrightarrow> sanitizeScope (ScopeString (sanitizeScope a)) = sanitizeScope a"
proof (cases a)
  case NoScope
  then show ?thesis by (simp add: sanitizeScope_def scope_truthy_def trim_def white_space_def)
next
  case (ScopeString s)
  have app: "trim ''app'' = ''app''" by (simp add: trim_def white_space_def)
  show ?thesis
    using ScopeString trim_idem[of s] app
    by (auto simp: sanitizeScope_def scope_truthy_def trim_def[of "[]"])
next
  case (ScopeOther x)
  assume "\<And>x. a \<noteq> ScopeOther x"
  then show ?thesis using ScopeOther by blast
qed

lemma sanitizeScope_nonempty: "(\<And>x. a \<noteq> ScopeOther x) \<Longrightarrow> sanitizeScope a \<noteq> []"
  by (cases a) (auto simp: sanitizeScope_def scope_truthy_def)

text \<open>
  Claim C9. When \<^verbatim>\<open>log\<close> writes a record, the record's level is the resolved level of
  the call, and its rank is at least that of the global level at the call and at least
  that of the logger's local level (debug 0, info 1, warn 2, error 3). When the logger's
  scope is in its set of denied scopes, \<^verbatim>\<open>log\<close> writes nothing, whatever the levels. The
  set holds the sanitized truthy entries of \<^verbatim>\<open>options.denyList\<close>; so a logger made with a
  string (or no) scope writes nothing when the deny-list, an array or a single value,
  has its scope name as an entry.
\<close>

theorem log_gating:
  "(log g lg stamp lvl msg = Some rc \<longrightarrow>
      rec_level rc = resolveLevel g lvl \<and>
      LEVEL_ORDER g \<le> LEVEL_ORDER (rec_level rc) \<and>
      LEVEL_ORDER (localLevel lg) \<le> LEVEL_ORDER (rec_level rc) \<and>
      loggerScope lg \<notin> set (denied lg)) \<and>
   (loggerScope lg \<in> set (denied lg) \<longrightarrow> log g lg stamp lvl msg = None) \<and>
   ((\<forall>x. scope \<noteq> ScopeOther x) \<and>
    ScopeString (loggerScope (createScopedLogger g0 scope opts))
      \<in> set (case denyList opts of DenyArray xs \<Rightarrow> xs | DenyValue x \<Rightarrow> [x]) \<longrightarrow>
      log g (createScopedLogger g0 scope opts) stamp lvl msg = None) \<and>
   LEVEL_ORDER Debug < LEVEL_ORDER Info \<and> LEVEL_ORDER Info < LEVEL_ORDER Warn \<and>
   LEVEL_ORDER Warn < LEVEL_ORDER Error"
proof -
  have emitted: "log g lg stamp lvl msg = Some rc \<longrightarrow>
      rec_level rc = resolveLevel g lvl \<and>
      LEVEL_ORDER g \<le> LEVEL_ORDER (rec_level rc) \<and>
      LEVEL_ORDER (localLevel lg) \<le> LEVEL_ORDER (rec_level rc) \<and>
      loggerScope lg \<notin> set (denied lg)"
    by (auto simp: log_def Let_def shouldLog_def resolveLevel_level_name split: if_splits)
  have deny: "loggerScope lg \<in> set (denied lg) \<longrightarrow> log g lg stamp lvl msg = None" for lg
    by (simp add: log_def Let_def)
  have listed: "log g (createScopedLogger g0 scope opts) stamp lvl msg = None"
    if str: "\<forall>x. scope \<noteq> ScopeOther x"
      and mem: "ScopeString (loggerScope (createScopedLogger g0 scope opts))
        \<in> set (case denyList opts of DenyArray xs \<Rightarrow> xs | DenyValue x \<Rightarrow> [x])"
  proof -
    let ?ds = "case denyList opts of DenyArray xs \<Rightarrow> xs | DenyValue x \<Rightarrow> [x]"
    let ?lg = "createScopedLogger g0 scope opts"
    have name: "loggerScope ?lg = sanitizeScope scope" by (simp add: createScopedLogger_def)
    have ne: "sanitizeScope scope \<noteq> []" using str by (intro sanitizeScope_nonempty) simp
    have "ScopeString (sanitizeScope scope) \<in> set (filter scope_truthy ?ds)"
      using mem ne by (simp add: name scope_truthy_def)
    then have "sanitizeScope (ScopeString (sanitizeScope scope))
        \<in> set (map sanitizeScope (filter scope_truthy ?ds))"
      unfolding set_map by (rule imageI)
    then have "sanitizeScope scope \<in> set (denied ?lg)"
      using str by (simp add: sanitizeScope_idem createScopedLogger_def)
    then show ?thesis using deny[of ?lg] by (simp add: name)
  qed
  have ranks: "LEVEL_ORDER Debug < LEVEL_ORDER Info \<and> LEVEL_ORDER Info < LEVEL_ORDER Warn \<and>
      LEVEL_ORDER Warn < LEVEL_ORDER Error"
    by simp
  from emitted deny[of lg] listed ranks show ?thesis by blast
qed

text \<open>
  Under the global level info, a logger for \<^verbatim>\<open>" background "\<close> with the local level warn
  writes an error record, with its prefix; the same logger with \<^verbatim>\<open>"background"\<close> in the
  deny-list writes nothing.
\<close>

theorem log_gating_witness:
  "log Info (createScopedLogger Debug (ScopeString '' background '')
        \<lparr> level = Some ''WARN'', denyList = DenyArray [] \<rparr>) ''T'' (Some ''error'') ''m'' =
     Some \<lparr> rec_level = Error, rec_prefix = ''[T] [background] [ERROR]'', rec_message = ''m'' \<rparr> \<and>
   LEVEL_ORDER Info \<le> LEVEL_ORDER Error \<and> LEVEL_ORDER Warn \<le> LEVEL_ORDER Error \<and>
   ScopeString ''background'' \<in> set [ScopeString ''other'', ScopeString ''background''] \<and>
   log Info (createScopedLogger Debug (ScopeString '' background '')
        \<lparr> level = Some ''WARN'',
          denyList = DenyArray [ScopeString ''other'', ScopeString ''background''] \<rparr>)
     ''T'' (Some ''error'') ''m'' = None"
proof -
  let ?o1 = "\<lparr> level = Some ''WARN'', denyList = DenyArray [] \<rparr>"
  let ?o2 = "\<lparr> level = Some ''WARN'',
     denyList = DenyArray [ScopeString ''other'', ScopeString ''background''] \<rparr>"
  let ?lg1 = "createScopedLogger Debug (ScopeString '' background '') ?o1"
  let ?rc = "\<lparr> rec_level = Error, rec_prefix = ''[T] [background] [ERROR]'', rec_message = ''m'' \<rparr>"
  have w: "log Info ?lg1 ''T'' (Some ''error'') ''m'' = Some ?rc" by code_simp
  have loc: "localLevel ?lg1 = Warn" by code_simp
  from log_gating[where g = Info and lg = ?lg1 and stamp = "''T''" and lvl = "Some ''error''"
      and msg = "''m''" and rc = ?rc] w
  have ranks: "LEVEL_ORDER Info \<le> LEVEL_ORDER Error \<and> LEVEL_ORDER (localLevel ?lg1) \<le> LEVEL_ORDER Error"
    by simp
  have name: "loggerScope (createScopedLogger Debug (ScopeString '' background '') ?o2) = ''background''"
    by code_simp
  have str: "\<forall>x. ScopeString '' background '' \<noteq> ScopeOther x" by simp
  have mem: "ScopeString (loggerScope (createScopedLogger Debug (ScopeString '' background '') ?o2))
    \<in> set (case denyList ?o2 of DenyArray xs \<Rightarrow> xs | DenyValue x \<Rightarrow> [x])"
    by (simp only: name) simp
  from log_gating[where g = Info and ?g0.0 = Debug and scope = "ScopeString '' background ''"
      and opts = ?o2 and stamp = "''T''" and lvl = "Some ''error''" and msg = "''m''"] str mem
  have none: "log Info (createScopedLogger Debug (ScopeString '' background '') ?o2)
     ''T'' (Some ''error'') ''m'' = None"
    by blast
  from w ranks none show ?thesis by (simp only: loc) simp
qed

section \<open>Key derivation\<close>

lemma hexval_percent: "hexval (CHR ''%'') = None"
  by (simp add: hexval_def)

lemma malformed_after_escape:
  "hexval h1 = Some x \<Longrightarrow> hexval h2 = Some y \<Longrightarrow>
   malformed_escape (h1 # h2 # rest) = malformed_escape rest"
  using hexval_percent by auto

lemma decode_uri_malformed: "malformed_escape s \<Longrightarrow> decode_uri need lo hi s = None"
proof (induction s arbitrary: need lo hi rule: length_induct)
  case (1 s)
  show ?case
  proof (cases s)
    case Nil
    then show ?thesis using 1 by simp
  next
    case (Cons c cs)
    show ?thesis
    proof (cases "c = CHR ''%''")
      case False
      then have m: "malformed_escape cs" using 1(2) Cons by simp
      have "decode_uri n l h cs = None" for n l h
        using 1(1) m Cons by simp
      then show ?thesis using False Cons by simp
    next
      case True
      show ?thesis
      proof (cases "hex_pair cs")
        case False
        then show ?thesis using True Cons
          by (auto simp: hex_pair_def split: list.splits option.splits)
      next
        case hp: True
        then obtain h1 h2 rest x y where cs: "cs = h1 # h2 # rest"
          and hx: "hexval h1 = Some x" "hexval h2 = Some y"
          by (auto simp: hex_pair_def split: list.splits)
        have "malformed_escape rest"
          using 1(2) Cons True hp cs malformed_after_escape[OF hx] by simp
        then have "decode_uri n l h rest = None" for n l h
          using 1(1) Cons cs by simp
        then show ?thesis using True Cons cs hx by (simp add: Let_def)
      qed
    qed
  qed
qed

lemma deriveCacheKey_target:
  assumes "\<not> truthy (cacheKey r)"
    and "js_or (searchParams_get ''url'' (parse_query q))
               (searchParams_get ''source'' (parse_query q)) = Some t"
    and "t \<noteq> []"
  shows "deriveCacheKey (Query q) r =
    (case decodeURIComponent t of None \<Rightarrow> JStr (apiUrl r) | Some d \<Rightarrow> JStr d)"
  using assms by (simp add: deriveCacheKey_def Let_def)

lemma split_on_no_sep: "sep \<notin> set xs \<Longrightarrow> split_on sep xs = [xs]"
  by (induction xs) auto


lemma form_decode_url: "form_decode ''url'' = ''url''"
  by code_simp

lemma form_decode_source: "form_decode ''source'' = ''source''"
  by code_simp

lemma parse_pair_url: "parse_pair (''url='' @ raw) = (''url'', form_decode raw)"
  by (simp add: parse_pair_def form_decode_url)

lemma parse_pair_source: "parse_pair (''source='' @ raw) = (''source'', form_decode raw)"
  by (simp add: parse_pair_def form_decode_source)

lemma parse_query_url_only:
  "CHR ''&'' \<notin> set raw \<Longrightarrow> parse_query (''url='' @ raw) = [(''url'', form_decode raw)]"
  using split_on_no_sep[of "CHR ''&''" "''url='' @ raw"] parse_pair_url[of raw]
  by (simp add: parse_query_def)

lemma parse_query_source_only:
  "CHR ''&'' \<notin> set raw \<Longrightarrow> parse_query (''source='' @ raw) = [(''source'', form_decode raw)]"
  using split_on_no_sep[of "CHR ''&''" "''source='' @ raw"] parse_pair_source[of raw]
  by (simp add: parse_query_def)

text \<open>
  Claim C10. Take a request with no truthy cache key whose \<^verbatim>\<open>apiUrl\<close> the URL parser
  accepts, with the query \<open>q\<close>, and let the target be what \<^verbatim>\<open>searchParams.get\<close> returns
  for \<^verbatim>\<open>url\<close>, or for \<^verbatim>\<open>source\<close> when that is missing or empty; it is not empty. If the
  target has a \<^verbatim>\<open>%\<close> that is not followed by two hex digits, \<^verbatim>\<open>decodeURIComponent\<close>
  throws; whenever it throws, the key is the whole raw \<^verbatim>\<open>apiUrl\<close>; when it returns, the
  key is what it returns. For a query that is the one parameter \<^verbatim>\<open>url\<close> (or \<^verbatim>\<open>source\<close>)
  with the raw text \<open>raw\<close>, the target is the form-decoding of \<open>raw\<close>, so the key is
  \<open>raw\<close> decoded twice.
\<close>

theorem double_decoding:
  "(\<not> truthy (cacheKey r) \<and>
    js_or (searchParams_get ''url'' (parse_query q))
          (searchParams_get ''source'' (parse_query q)) = Some t \<and> t \<noteq> [] \<longrightarrow>
      (malformed_escape t \<longrightarrow>
         decodeURIComponent t = None \<and> deriveCacheKey (Query q) r = JStr (apiUrl r)) \<and>
      (decodeURIComponent t = None \<longrightarrow> deriveCacheKey (Query q) r = JStr (apiUrl r)) \<and>
      (\<forall>d. decodeURIComponent t = Some d \<longrightarrow> deriveCacheKey (Query q) r = JStr d)) \<and>
   (\<not> truthy (cacheKey r) \<and> CHR ''&'' \<notin> set raw \<and> form_decode raw \<noteq> [] \<longrightarrow>
      deriveCacheKey (Query (''url='' @ raw)) r =
        (case decodeURIComponent (form_decode raw) of
           None \<Rightarrow> JStr (apiUrl r)
         | Some d \<Rightarrow> JStr d) \<and>
      deriveCacheKey (Query (''source='' @ raw)) r =
        (case decodeURIComponent (form_decode raw) of
           None \<Rightarrow> JStr (apiUrl r)
         | Some d \<Rightarrow> JStr d))"
proof -
  have target: "(malformed_escape t \<longrightarrow>
         decodeURIComponent t = None \<and> deriveCacheKey (Query q) r = JStr (apiUrl r)) \<and>
      (decodeURIComponent t = None \<longrightarrow> deriveCacheKey (Query q) r = JStr (apiUrl r)) \<and>
      (\<forall>d. decodeURIComponent t = Some d \<longrightarrow> deriveCacheKey (Query q) r = JStr d)"
    if "\<not> truthy (cacheKey r)"
      "js_or (searchParams_get ''url'' (parse_query q))
             (searchParams_get ''source'' (parse_query q)) = Some t" "t \<noteq> []"
    using deriveCacheKey_target[OF that] decode_uri_malformed[of t 0 "0x80" "0xBF"]
    by (auto simp: decodeURIComponent_def)
  have single: "deriveCacheKey (Query (''url='' @ raw)) r =
        (case decodeURIComponent (form_decode raw) of
           None \<Rightarrow> JStr (apiUrl r)
         | Some d \<Rightarrow> JStr d) \<and>
      deriveCacheKey (Query (''source='' @ raw)) r =
        (case decodeURIComponent (form_decode raw) of
           None \<Rightarrow> JStr (apiUrl r)
         | Some d \<Rightarrow> JStr d)"
    if k: "\<not> truthy (cacheKey r)" and amp: "CHR ''&'' \<notin> set raw" and ne: "form_decode raw \<noteq> []"
  proof -
    have u: "js_or (searchParams_get ''url'' (parse_query (''url='' @ raw)))
             (searchParams_get ''source'' (parse_query (''url='' @ raw))) = Some (form_decode raw)"
      using ne by (simp only: parse_query_url_only[OF amp]) (simp add: js_or_def searchParams_get_def)
    have v: "js_or (searchParams_get ''url'' (parse_query (''source='' @ raw)))
             (searchParams_get ''source'' (parse_query (''source='' @ raw))) = Some (form_decode raw)"
      using ne by (simp only: parse_query_source_only[OF amp]) (simp add: js_or_def searchParams_get_def)
    from deriveCacheKey_target[OF k u ne] deriveCacheKey_target[OF k v ne] show ?thesis
      by (rule conjI)
  qed
  from target single show ?thesis by blast
qed

text \<open>
  The URL parser gives \<^verbatim>\<open>https://api.example/x?url=100%25\<close> the query \<^verbatim>\<open>url=100%25\<close>; the
  target is \<^verbatim>\<open>100%\<close>, which does not decode, and the key is the whole URL. For
  \<^verbatim>\<open>?url=a%2541\<close> the target is \<^verbatim>\<open>a%41\<close> and the key is \<^verbatim>\<open>aA\<close>.
\<close>

theorem double_decoding_witness:
  "form_decode ''100%25'' = ''100%'' \<and> malformed_escape ''100%'' \<and>
   decodeURIComponent ''100%'' = None \<and>
   deriveCacheKey (Query ''url=100%25'')
     \<lparr> action = ''fetchTikTokData'', apiUrl = ''https://api.example/x?url=100%25'',
       cacheKey = JUndefined \<rparr> = JStr ''https://api.example/x?url=100%25'' \<and>
   form_decode ''a%2541'' = ''a%41'' \<and> decodeURIComponent ''a%41'' = Some ''aA'' \<and>
   deriveCacheKey (Query ''url=a%2541'')
     \<lparr> action = ''fetchTikTokData'', apiUrl = ''https://api.example/x?url=a%2541'',
       cacheKey = JUndefined \<rparr> = JStr ''aA''"
proof -
  let ?r1 = "\<lparr> action = ''fetchTikTokData'', apiUrl = ''https://api.example/x?url=100%25'',
              cacheKey = JUndefined \<rparr>"
  let ?r2 = "\<lparr> action = ''fetchTikTokData'', apiUrl = ''https://api.example/x?url=a%2541'',
              cacheKey = JUndefined \<rparr>"
  have k: "\<not> truthy (cacheKey ?r1)" "\<not> truthy (cacheKey ?r2)" by simp_all
  have f1: "form_decode ''100%25'' = ''100%''" and f2: "form_decode ''a%2541'' = ''a%41''"
    by code_simp+
  have amp: "CHR ''&'' \<notin> set ''a%2541''" by simp
  have bad: "malformed_escape ''100%''" by (simp add: hex_pair_def)
  have t1: "js_or (searchParams_get ''url'' (parse_query ''url=100%25''))
      (searchParams_get ''source'' (parse_query ''url=100%25'')) = Some ''100%''"
    by code_simp
  have d2: "decodeURIComponent ''a%41'' = Some ''aA''" by code_simp
  note c1 = double_decoding[where r = ?r1 and q = "''url=100%25''" and t = "''100%''",
      THEN conjunct1, THEN mp, THEN conjunct1, THEN mp]
  have e1: "decodeURIComponent ''100%'' = None \<and>
      deriveCacheKey (Query ''url=100%25'') ?r1 = JStr (apiUrl ?r1)"
    using c1 k(1) t1 bad by simp
  note c2 = double_decoding[where r = ?r2 and raw = "''a%2541''", THEN conjunct2, THEN mp,
      THEN conjunct1]
  have e2: "deriveCacheKey (Query ''url=a%2541'') ?r2 = JStr ''aA''"
    using c2 k(2) amp by (simp add: f2 d2)
  from f1 bad e1 f2 d2 e2 show ?thesis by simp
qed











end
